theory Spec2Isabelle
  imports Main "HOL-Library.Multiset"
begin

section \<open>Binary heap of package heap (heap.go)\<close>

subsection \<open>Data model\<close>

text \<open>
  The two error values the package creates with \<open>errors.New\<close>:
  \<open>EmptyContainer\<close> stands for \<open>errors.New("heap vacio")\<close> of \<open>Remove\<close>,
  \<open>InvalidRank\<close> for \<open>errors.New("n debe estar en el rango de 1 a M")\<close> of
  \<open>EnesimoMaximo\<close>. A Go \<open>error\<close> result is an \<open>error option\<close>, \<open>None\<close> being \<open>nil\<close>.
\<close>

datatype error = EmptyContainer | InvalidRank

text \<open>
  \<open>type Heap[T any] struct { elements []T; compare func(a T, b T) int }\<close>.
  In this first part a heap is a value: the slice is the list of its elements, and a
  method with a pointer receiver returns the updated heap. The pointer-level reading
  (slice headers, backing arrays, heap objects in a store) follows further down.
\<close>

record 'a Heap =
  elements :: "'a list"
  compare :: "'a \<Rightarrow> 'a \<Rightarrow> int"

text \<open>
  Modelled from the spec: \<open>utils.Compare\<close> belongs to the imported package
  \<open>github.com/untref-ayp2/data-structures/utils\<close>, which is not part of the sources.
  The spec (4.1) and the comment on the field \<open>compare\<close> give it as the natural
  ascending three-way comparison: \<open>-1\<close> if \<open>a < b\<close>, \<open>0\<close> if \<open>a == b\<close>, \<open>1\<close> if \<open>a > b\<close>.
  The constraint \<open>types.Ordered\<close> is read as a linear order (integers and strings;
  floating point values are outside the model).
\<close>

definition Compare :: "'a::linorder \<Rightarrow> 'a \<Rightarrow> int" where
  "Compare a b = (if a < b then - 1 else if a = b then 0 else 1)"

definition NewMinHeap :: "'a::linorder Heap" where
  "NewMinHeap = \<lparr>elements = [], compare = Compare\<rparr>"

definition NewMaxHeap :: "'a::linorder Heap" where
  "NewMaxHeap = \<lparr>elements = [], compare = (\<lambda>a b. Compare b a)\<rparr>"

definition NewGenericHeap :: "('a \<Rightarrow> 'a \<Rightarrow> int) \<Rightarrow> 'a Heap" where
  "NewGenericHeap cmp = \<lparr>elements = [], compare = cmp\<rparr>"

definition Size :: "'a Heap \<Rightarrow> nat" where
  "Size m = length (elements m)"

subsection \<open>Sifting\<close>

text \<open>
  \<open>upHeap\<close>: the loop \<open>for i > 0\<close>. Indices are natural numbers (the only caller
  passes \<open>len(m.elements) - 1\<close> of a non-empty slice). Reading \<open>m.elements[i]\<close> with
  \<open>i\<close> beyond the length is a run-time panic in Go: the result \<open>None\<close>.
  The tuple assignment evaluates its right-hand side first.
\<close>

function upHeap :: "('a \<Rightarrow> 'a \<Rightarrow> int) \<Rightarrow> 'a list \<Rightarrow> nat \<Rightarrow> 'a list option" where
  "upHeap cmp es i =
     (if 0 < i then
        (let parent = (i - 1) div 2 in
         if length es \<le> i then None
         else if cmp (es ! i) (es ! parent) > 0 then Some es
         else upHeap cmp (es[i := es ! parent, parent := es ! i]) parent)
      else Some es)"
  by pat_completeness auto
termination
  by (relation "measure (\<lambda>(cmp, es, i). i)") auto

text \<open>
  \<open>downHeap\<close>: the loop \<open>for { ... }\<close>, left by \<open>break\<close> when \<open>smallest == i\<close>.
  Every read is guarded by \<open>left < m.Size()\<close> or \<open>right < m.Size()\<close>, so no read is
  out of range.
\<close>

function downHeap :: "('a \<Rightarrow> 'a \<Rightarrow> int) \<Rightarrow> 'a list \<Rightarrow> nat \<Rightarrow> 'a list" where
  "downHeap cmp es i =
     (let left = 2 * i + 1;
          right = 2 * i + 2;
          smallest = i;
          smallest = (if left < length es \<and> cmp (es ! left) (es ! smallest) < 0
                      then left else smallest);
          smallest = (if right < length es \<and> cmp (es ! right) (es ! smallest) < 0
                      then right else smallest)
      in if smallest = i then es
         else downHeap cmp (es[i := es ! smallest, smallest := es ! i]) smallest)"
  by pat_completeness auto
termination
  by (relation "measure (\<lambda>(cmp, es, i). length es - i)") (auto simp: Let_def split: if_splits)

declare upHeap.simps [simp del]
declare downHeap.simps [simp del]

subsection \<open>Insert and Remove\<close>

text \<open>
  \<open>Insert\<close> appends and sifts up from the last index. It has no error result; the
  \<open>option\<close> only carries the panic of \<open>upHeap\<close>, which \<open>Insert\<close> never meets
  (lemma \<open>Insert_total\<close>).
\<close>

definition Insert :: "'a Heap \<Rightarrow> 'a \<Rightarrow> 'a Heap option" where
  "Insert m element =
     (let es = elements m @ [element] in
      case upHeap (compare m) es (length es - 1) of
        None \<Rightarrow> None
      | Some es' \<Rightarrow> Some (m\<lparr>elements := es'\<rparr>))"

text \<open>
  \<open>Remove\<close> returns the pair \<open>(T, error)\<close> and the updated heap. \<open>var element T\<close> is
  the zero value of \<open>T\<close>: the constant \<open>default\<close> of the type.
\<close>

definition Remove :: "'a::default Heap \<Rightarrow> ('a \<times> error option) \<times> 'a Heap" where
  "Remove m =
     (if Size m = 0 then ((default, Some EmptyContainer), m)
      else
        (let element = elements m ! 0;
             es1 = (elements m)[0 := elements m ! (Size m - 1)];
             es2 = take (Size m - 1) es1
         in ((element, None), m\<lparr>elements := downHeap (compare m) es2 0\<rparr>)))"

instantiation int :: default
begin
definition default_int :: int where "default_int = 0"
instance ..
end

subsection \<open>Bulk build, n-th element, merge\<close>

text \<open>
  The loop \<open>for _, element := range arr { heap.Insert(element) }\<close>, which
  \<open>NuevoMonticuloMaxDesdeArreglo\<close> runs once and \<open>CombinarMonticulos\<close> twice.
\<close>

fun insert_range :: "'a Heap \<Rightarrow> 'a list \<Rightarrow> 'a Heap option" where
  "insert_range heap [] = Some heap"
| "insert_range heap (element # arr) =
     (case Insert heap element of
        None \<Rightarrow> None
      | Some heap' \<Rightarrow> insert_range heap' arr)"

definition NuevoMonticuloMaxDesdeArreglo :: "'a::linorder list \<Rightarrow> 'a Heap option" where
  "NuevoMonticuloMaxDesdeArreglo arr = insert_range NewMaxHeap arr"

text \<open>
  The loop \<open>for i := 0; i < n; i++\<close> of \<open>EnesimoMaximo\<close> on the copy; it returns
  as soon as a \<open>Remove\<close> reports an error.
\<close>

function EnesimoMaximo_loop ::
  "'a::default Heap \<Rightarrow> int \<Rightarrow> int \<Rightarrow> 'a \<Rightarrow> 'a \<times> error option" where
  "EnesimoMaximo_loop copiaHeap n i maximo =
     (if i < n then
        (case Remove copiaHeap of
           ((maximo', err), copiaHeap') \<Rightarrow>
             if err \<noteq> None then (maximo', err)
             else EnesimoMaximo_loop copiaHeap' n (i + 1) maximo')
      else (maximo, None))"
  by pat_completeness auto
termination
  by (relation "measure (\<lambda>(copiaHeap, n, i, maximo). nat (n - i))") auto

declare EnesimoMaximo_loop.simps [simp del]

definition EnesimoMaximo :: "'a::default Heap \<Rightarrow> int \<Rightarrow> 'a \<times> error option" where
  "EnesimoMaximo heap n =
     (if n < 1 \<or> n > int (Size heap) then (default, Some InvalidRank)
      else
        (let copiaHeap = \<lparr>elements = elements heap, compare = compare heap\<rparr>
         in EnesimoMaximo_loop copiaHeap n 0 default))"

definition CombinarMonticulos :: "'a::linorder Heap \<Rightarrow> 'a Heap \<Rightarrow> 'a Heap option" where
  "CombinarMonticulos heap1 heap2 =
     (let combinedHeap =
            (if Size heap1 > 1 \<and> compare heap1 (elements heap1 ! 0) (elements heap1 ! 1) > 0
             then NewMaxHeap else NewMinHeap)
      in case insert_range combinedHeap (elements heap1) of
           None \<Rightarrow> None
         | Some combinedHeap' \<Rightarrow> insert_range combinedHeap' (elements heap2))"

subsection \<open>Properties the claims speak of\<close>

text \<open>
  The heap-order invariant as the spec writes it: every index with a child inside the
  sequence compares \<open>\<le> 0\<close> with that child.
\<close>

definition heap_inv :: "('a \<Rightarrow> 'a \<Rightarrow> int) \<Rightarrow> 'a list \<Rightarrow> bool" where
  "heap_inv cmp es =
     (\<forall>i < length es.
        (2 * i + 1 < length es \<longrightarrow> cmp (es ! i) (es ! (2 * i + 1)) \<le> 0) \<and>
        (2 * i + 2 < length es \<longrightarrow> cmp (es ! i) (es ! (2 * i + 2)) \<le> 0))"

definition heap_ok :: "'a Heap \<Rightarrow> bool" where
  "heap_ok m = heap_inv (compare m) (elements m)"

text \<open>
  What the proofs need of a comparator: any two elements are comparable and the
  relation \<open>compare a b \<le> 0\<close> is transitive. Every total order in the sense of the
  spec (zero on equal arguments, opposite signs on swapped arguments, transitive)
  satisfies both.
\<close>

definition valid_comparator :: "('a \<Rightarrow> 'a \<Rightarrow> int) \<Rightarrow> bool" where
  "valid_comparator cmp =
     ((\<forall>a b. 0 \<le> cmp b a \<longrightarrow> cmp a b \<le> 0) \<and>
      (\<forall>a b c. cmp a b \<le> 0 \<and> cmp b c \<le> 0 \<longrightarrow> cmp a c \<le> 0))"

text \<open>A client's sequence of calls on one heap.\<close>

datatype 'a heap_call = CallInsert 'a | CallRemove

fun apply_call :: "'a::default Heap \<Rightarrow> 'a heap_call \<Rightarrow> 'a Heap option" where
  "apply_call m (CallInsert x) = Insert m x"
| "apply_call m CallRemove = Some (snd (Remove m))"

fun apply_calls :: "'a::default Heap \<Rightarrow> 'a heap_call list \<Rightarrow> 'a Heap option" where
  "apply_calls m [] = Some m"
| "apply_calls m (c # cs) =
     (case apply_call m c of None \<Rightarrow> None | Some m' \<Rightarrow> apply_calls m' cs)"

text \<open>\<open>n\<close> successive calls of \<open>Remove\<close>, with the results in the order of the calls.\<close>

fun remove_n :: "nat \<Rightarrow> 'a::default Heap \<Rightarrow> ('a \<times> error option) list \<times> 'a Heap" where
  "remove_n 0 m = ([], m)"
| "remove_n (Suc n) m =
     (case Remove m of
        (r, m') \<Rightarrow> (case remove_n n m' of (rs, m'') \<Rightarrow> (r # rs, m'')))"

section \<open>Pointers, slices and backing arrays\<close>

text \<open>
  The claims that an operation leaves the caller's heap alone depend on what the Go
  program shares: a \<open>*Heap[T]\<close> points to a heap object, and the field \<open>elements\<close> of
  the object is a slice header over a backing array. A store holds the backing arrays
  and the heap objects; an address is an index into the store, and an allocation
  appends to it. Every slice of this program starts at the first cell of its backing
  array, so a header is the array's address and a length; the capacity is the length
  of the array. An address outside the store stands for a \<open>nil\<close> pointer, whose
  dereference panics (\<open>None\<close>).
\<close>

record slice =
  sl_base :: nat
  sl_len :: nat

record 'a heap_obj =
  h_elements :: slice
  h_compare :: "'a \<Rightarrow> 'a \<Rightarrow> int"

record 'a store =
  arrays :: "'a list list"
  objs :: "'a heap_obj list"

definition cap :: "'a store \<Rightarrow> slice \<Rightarrow> nat" where
  "cap s sl = length (arrays s ! sl_base sl)"

text \<open>The elements a slice shows, and a write of the list \<open>es\<close> over its first cells.\<close>

definition view :: "'a store \<Rightarrow> slice \<Rightarrow> 'a list" where
  "view s sl = take (sl_len sl) (arrays s ! sl_base sl)"

definition put :: "'a store \<Rightarrow> slice \<Rightarrow> 'a list \<Rightarrow> 'a store" where
  "put s sl es =
     s\<lparr>arrays := (arrays s)[sl_base sl := es @ drop (length es) (arrays s ! sl_base sl)]\<rparr>"

text \<open>\<open>make([]T, n)\<close>: a new array of \<open>n\<close> zero values.\<close>

definition make_slice :: "nat \<Rightarrow> 'a::default store \<Rightarrow> slice \<times> 'a store" where
  "make_slice n s =
     (\<lparr>sl_base = length (arrays s), sl_len = n\<rparr>,
      s\<lparr>arrays := arrays s @ [replicate n default]\<rparr>)"

text \<open>
  \<open>append(sl, x)\<close>: within the capacity the element is written into the backing array
  in place; otherwise a new, larger array receives a copy. The capacity of the new
  array is the Go runtime's choice: the parameter \<open>newcap\<close> gives it from the old
  capacity, and it is at least the new length.
\<close>

definition append_slice ::
  "(nat \<Rightarrow> nat) \<Rightarrow> slice \<Rightarrow> 'a \<Rightarrow> 'a::default store \<Rightarrow> slice \<times> 'a store" where
  "append_slice newcap sl x s =
     (if sl_len sl < cap s sl then
        (sl\<lparr>sl_len := sl_len sl + 1\<rparr>,
         s\<lparr>arrays := (arrays s)[sl_base sl := (arrays s ! sl_base sl)[sl_len sl := x]]\<rparr>)
      else
        (let c = max (sl_len sl + 1) (newcap (cap s sl));
             arr = view s sl @ [x] @ replicate (c - (sl_len sl + 1)) default
         in (\<lparr>sl_base = length (arrays s), sl_len = sl_len sl + 1\<rparr>,
             s\<lparr>arrays := arrays s @ [arr]\<rparr>)))"

text \<open>\<open>&Heap[T]{...}\<close>: a new heap object; the result is its address.\<close>

definition new_obj :: "'a heap_obj \<Rightarrow> 'a store \<Rightarrow> nat \<times> 'a store" where
  "new_obj m s = (length (objs s), s\<lparr>objs := objs s @ [m]\<rparr>)"

definition NewMinHeap_p :: "'a::{linorder,default} store \<Rightarrow> nat \<times> 'a store" where
  "NewMinHeap_p s =
     (case make_slice 0 s of
        (sl, s1) \<Rightarrow> new_obj \<lparr>h_elements = sl, h_compare = Compare\<rparr> s1)"

definition NewMaxHeap_p :: "'a::{linorder,default} store \<Rightarrow> nat \<times> 'a store" where
  "NewMaxHeap_p s =
     (case make_slice 0 s of
        (sl, s1) \<Rightarrow> new_obj \<lparr>h_elements = sl, h_compare = (\<lambda>a b. Compare b a)\<rparr> s1)"

text \<open>
  \<open>Insert\<close> and \<open>Remove\<close> through the pointer \<open>m\<close>. \<open>upHeap\<close> and \<open>downHeap\<close> read and
  write the cells of \<open>m.elements\<close>: they run on the view of the slice, and the result is
  written back over the same cells.
\<close>

definition Insert_p ::
  "(nat \<Rightarrow> nat) \<Rightarrow> nat \<Rightarrow> 'a \<Rightarrow> 'a::default store \<Rightarrow> 'a store option" where
  "Insert_p newcap m element s =
     (if m < length (objs s) then
        (let h = objs s ! m in
         case append_slice newcap (h_elements h) element s of
           (sl, s1) \<Rightarrow>
             (let s2 = s1\<lparr>objs := (objs s1)[m := h\<lparr>h_elements := sl\<rparr>]\<rparr> in
              case upHeap (h_compare h) (view s2 sl) (sl_len sl - 1) of
                None \<Rightarrow> None
              | Some es \<Rightarrow> Some (put s2 sl es)))
      else None)"

definition Remove_p ::
  "nat \<Rightarrow> 'a::default store \<Rightarrow> (('a \<times> error option) \<times> 'a store) option" where
  "Remove_p m s =
     (if m < length (objs s) then
        (let h = objs s ! m; sl = h_elements h in
         if sl_len sl = 0 then Some ((default, Some EmptyContainer), s)
         else
           (let es = view s sl;
                element = es ! 0;
                s1 = put s sl (es[0 := es ! (sl_len sl - 1)]);
                sl' = sl\<lparr>sl_len := sl_len sl - 1\<rparr>;
                s2 = s1\<lparr>objs := (objs s1)[m := h\<lparr>h_elements := sl'\<rparr>]\<rparr>;
                s3 = put s2 sl' (downHeap (h_compare h) (view s2 sl') 0)
            in Some ((element, None), s3)))
      else None)"

function EnesimoMaximo_loop_p ::
  "nat \<Rightarrow> int \<Rightarrow> int \<Rightarrow> 'a \<Rightarrow> 'a::default store \<Rightarrow> (('a \<times> error option) \<times> 'a store) option" where
  "EnesimoMaximo_loop_p copiaHeap n i maximo s =
     (if i < n then
        (case Remove_p copiaHeap s of
           None \<Rightarrow> None
         | Some ((maximo', err), s') \<Rightarrow>
             if err \<noteq> None then Some ((maximo', err), s')
             else EnesimoMaximo_loop_p copiaHeap n (i + 1) maximo' s')
      else Some ((maximo, None), s))"
  by pat_completeness auto
termination
  by (relation "measure (\<lambda>(copiaHeap, n, i, maximo, s). nat (n - i))") auto

declare EnesimoMaximo_loop_p.simps [simp del]

text \<open>
  \<open>EnesimoMaximo\<close>: the copy is a new heap object over a new array (\<open>make\<close>), filled
  by \<open>copy\<close>, which copies as many elements as the shorter of the two slices has.
\<close>

definition EnesimoMaximo_p ::
  "nat \<Rightarrow> int \<Rightarrow> 'a::default store \<Rightarrow> (('a \<times> error option) \<times> 'a store) option" where
  "EnesimoMaximo_p heap n s =
     (if heap < length (objs s) then
        (let h = objs s ! heap in
         if n < 1 \<or> n > int (sl_len (h_elements h)) then Some ((default, Some InvalidRank), s)
         else
           (case make_slice (sl_len (h_elements h)) s of
              (sl, s1) \<Rightarrow>
                (case new_obj \<lparr>h_elements = sl, h_compare = h_compare h\<rparr> s1 of
                   (copiaHeap, s2) \<Rightarrow>
                     (let src = view s2 (h_elements h);
                          s3 = put s2 sl (take (min (sl_len sl) (length src)) src)
                      in EnesimoMaximo_loop_p copiaHeap n 0 default s3))))
      else None)"

text \<open>
  The loop \<open>for _, element := range heap.elements { combinedHeap.Insert(element) }\<close>:
  the slice header is read once, each element when its turn comes.
\<close>

function range_Insert_p ::
  "(nat \<Rightarrow> nat) \<Rightarrow> nat \<Rightarrow> slice \<Rightarrow> nat \<Rightarrow> 'a::default store \<Rightarrow> 'a store option" where
  "range_Insert_p newcap combinedHeap sl i s =
     (if i < sl_len sl then
        (case Insert_p newcap combinedHeap (arrays s ! sl_base sl ! i) s of
           None \<Rightarrow> None
         | Some s' \<Rightarrow> range_Insert_p newcap combinedHeap sl (i + 1) s')
      else Some s)"
  by pat_completeness auto
termination
  by (relation "measure (\<lambda>(newcap, combinedHeap, sl, i, s). sl_len sl - i)") auto

declare range_Insert_p.simps [simp del]

definition CombinarMonticulos_p ::
  "(nat \<Rightarrow> nat) \<Rightarrow> nat \<Rightarrow> nat \<Rightarrow> 'a::{linorder,default} store \<Rightarrow> (nat \<times> 'a store) option" where
  "CombinarMonticulos_p newcap heap1 heap2 s =
     (if heap1 < length (objs s) then
        (let h1 = objs s ! heap1 in
         case (if sl_len (h_elements h1) > 1 \<and>
                  h_compare h1 (view s (h_elements h1) ! 0) (view s (h_elements h1) ! 1) > 0
               then NewMaxHeap_p s else NewMinHeap_p s) of
           (combinedHeap, s1) \<Rightarrow>
             (case range_Insert_p newcap combinedHeap (h_elements (objs s1 ! heap1)) 0 s1 of
                None \<Rightarrow> None
              | Some s2 \<Rightarrow>
                  if heap2 < length (objs s2) then
                    (case range_Insert_p newcap combinedHeap (h_elements (objs s2 ! heap2)) 0 s2 of
                       None \<Rightarrow> None
                     | Some s3 \<Rightarrow> Some (combinedHeap, s3))
                  else None))
      else None)"

text \<open>The heap value a pointer stands for in a store.\<close>

definition heap_of :: "'a store \<Rightarrow> nat \<Rightarrow> 'a Heap" where
  "heap_of s m =
     \<lparr>elements = view s (h_elements (objs s ! m)), compare = h_compare (objs s ! m)\<rparr>"

text \<open>
  A pointer is valid when it is the address of a heap object whose slice lies within
  an array of the store.
\<close>

definition valid_ptr :: "'a store \<Rightarrow> nat \<Rightarrow> bool" where
  "valid_ptr s m =
     (m < length (objs s) \<and>
      sl_base (h_elements (objs s ! m)) < length (arrays s) \<and>
      sl_len (h_elements (objs s ! m)) \<le> cap s (h_elements (objs s ! m)))"

subsection \<open>Auxiliary notions of the proofs\<close>

text \<open>
  The heap order with one index left out: \<open>up_inv\<close> leaves out the comparison of index
  \<open>k\<close> with its parent, \<open>down_inv\<close> the comparisons of \<open>k\<close> with its children; in both
  the children of \<open>k\<close> are in order with the parent of \<open>k\<close>.
\<close>

text \<open>
  The index \<open>smallest\<close> that one round of the loop of \<open>downHeap\<close> computes, as a
  function of its own, so that the lemmas can name it.
\<close>


definition smallest_of :: "('a \<Rightarrow> 'a \<Rightarrow> int) \<Rightarrow> 'a list \<Rightarrow> nat \<Rightarrow> nat" where
  "smallest_of cmp es i =
     (let s1 = (if 2 * i + 1 < length es \<and> cmp (es ! (2 * i + 1)) (es ! i) < 0 then 2 * i + 1 else i)
      in if 2 * i + 2 < length es \<and> cmp (es ! (2 * i + 2)) (es ! s1) < 0 then 2 * i + 2 else s1)"

definition up_inv :: "('a \<Rightarrow> 'a \<Rightarrow> int) \<Rightarrow> 'a list \<Rightarrow> nat \<Rightarrow> bool" where
  "up_inv cmp es k =
     (\<forall>j. 0 < j \<and> j < length es \<longrightarrow>
        (j \<noteq> k \<longrightarrow> cmp (es ! ((j - 1) div 2)) (es ! j) \<le> 0) \<and>
        ((j - 1) div 2 = k \<and> 0 < k \<longrightarrow> cmp (es ! ((k - 1) div 2)) (es ! j) \<le> 0))"

definition down_inv :: "('a \<Rightarrow> 'a \<Rightarrow> int) \<Rightarrow> 'a list \<Rightarrow> nat \<Rightarrow> bool" where
  "down_inv cmp es k =
     (\<forall>j. 0 < j \<and> j < length es \<longrightarrow>
        ((j - 1) div 2 \<noteq> k \<longrightarrow> cmp (es ! ((j - 1) div 2)) (es ! j) \<le> 0) \<and>
        ((j - 1) div 2 = k \<and> 0 < k \<longrightarrow> cmp (es ! ((k - 1) div 2)) (es ! j) \<le> 0))"

text \<open>
  \<open>s'\<close> agrees with \<open>s\<close> on every heap object of \<open>s\<close> but \<open>m\<close> and on every array of
  \<open>s\<close> but \<open>b\<close>.
\<close>

definition same_except :: "'a store \<Rightarrow> 'a store \<Rightarrow> nat \<Rightarrow> nat \<Rightarrow> bool" where
  "same_except s s' m b =
     (length (objs s') = length (objs s) \<and> length (arrays s) \<le> length (arrays s') \<and>
      (\<forall>q < length (objs s). q \<noteq> m \<longrightarrow> objs s' ! q = objs s ! q) \<and>
      (\<forall>a < length (arrays s). a \<noteq> b \<longrightarrow> arrays s' ! a = arrays s ! a))"

text \<open>Every heap object and every array of \<open>s\<close> is in \<open>s'\<close> as it was.\<close>

definition preserved :: "'a store \<Rightarrow> 'a store \<Rightarrow> bool" where
  "preserved s s' =
     (length (objs s) \<le> length (objs s') \<and> length (arrays s) \<le> length (arrays s') \<and>
      (\<forall>q < length (objs s). objs s' ! q = objs s ! q) \<and>
      (\<forall>a < length (arrays s). arrays s' ! a = arrays s ! a))"

section \<open>Sifting restores the heap order\<close>

lemma upHeap_Some:
  "i < length es \<Longrightarrow> \<exists>es'. upHeap cmp es i = Some es' \<and> length es' = length es \<and> mset es' = mset es"
proof (induction cmp es i rule: upHeap.induct)
  case (1 cmp es i)
  show ?case
  proof (cases "0 < i \<and> \<not> cmp (es ! i) (es ! ((i - 1) div 2)) > 0")
    case True
    let ?p = "(i - 1) div 2"
    let ?es = "es[i := es ! ?p, ?p := es ! i]"
    have p: "?p < length es" using "1.prems" by simp
    have "\<exists>es'. upHeap cmp ?es ?p = Some es' \<and> length es' = length ?es \<and> mset es' = mset ?es"
      using "1.IH"[of ?p] True "1.prems" p by simp
    moreover have "mset ?es = mset es"
      using mset_swap[OF p "1.prems"] by simp
    moreover have "upHeap cmp es i = upHeap cmp ?es ?p"
      using True "1.prems" by (subst upHeap.simps) (simp add: Let_def)
    ultimately show ?thesis by simp
  next
    case False
    then show ?thesis using "1.prems" by (subst upHeap.simps) (auto simp: Let_def)
  qed
qed

lemma downHeap_step:
  "downHeap cmp es i =
     (if smallest_of cmp es i = i then es
      else downHeap cmp (es[i := es ! smallest_of cmp es i, smallest_of cmp es i := es ! i])
             (smallest_of cmp es i))"
  by (subst downHeap.simps) (simp only: Let_def smallest_of_def)

lemma smallest_of_cases:
  "smallest_of cmp es i = i \<or>
   (smallest_of cmp es i = 2 * i + 1 \<or> smallest_of cmp es i = 2 * i + 2) \<and>
   smallest_of cmp es i < length es"
  by (simp add: smallest_of_def Let_def)

lemma downHeap_induct_step [consumes 0, case_names step]:
  assumes "\<And>cmp es i. (smallest_of cmp es i \<noteq> i \<Longrightarrow>
             P cmp (es[i := es ! smallest_of cmp es i, smallest_of cmp es i := es ! i])
               (smallest_of cmp es i)) \<Longrightarrow> P cmp es i"
  shows "P cmp es i"
proof (induction cmp es i rule: downHeap.induct)
  case (1 cmp es i)
  show ?case
  proof (rule assms)
    assume "smallest_of cmp es i \<noteq> i"
    then show "P cmp (es[i := es ! smallest_of cmp es i, smallest_of cmp es i := es ! i])
               (smallest_of cmp es i)"
      using "1.IH"[OF refl refl refl refl refl] unfolding smallest_of_def Let_def by blast
  qed
qed

lemma downHeap_length_mset:
  "length (downHeap cmp es i) = length es \<and> mset (downHeap cmp es i) = mset es"
proof (induction cmp es i rule: downHeap_induct_step)
  case (step cmp es i)
  let ?s = "smallest_of cmp es i"
  show ?case
  proof (cases "?s = i")
    case True
    then show ?thesis by (subst downHeap_step, simp)+
  next
    case False
    have sl: "?s < length es" "i < length es"
      using False smallest_of_cases[of cmp es i] by auto
    have "mset (es[i := es ! ?s, ?s := es ! i]) = mset es"
      using mset_swap[OF sl] by simp
    then show ?thesis using step[OF False] False
      by (subst downHeap_step, simp)+
  qed
qed

lemma heap_inv_parent:
  "heap_inv cmp es \<longleftrightarrow>
     (\<forall>j. 0 < j \<and> j < length es \<longrightarrow> cmp (es ! ((j - 1) div 2)) (es ! j) \<le> 0)"
proof
  assume H: "heap_inv cmp es"
  show "\<forall>j. 0 < j \<and> j < length es \<longrightarrow> cmp (es ! ((j - 1) div 2)) (es ! j) \<le> 0"
  proof (intro allI impI)
    fix j assume j: "0 < j \<and> j < length es"
    define i where "i = (j - 1) div 2"
    have "j = 2 * i + 1 \<or> j = 2 * i + 2" using j unfolding i_def by presburger
    moreover have "i < length es" using j unfolding i_def by arith
    ultimately show "cmp (es ! ((j - 1) div 2)) (es ! j) \<le> 0"
      using H j unfolding heap_inv_def i_def[symmetric] by blast
  qed
next
  assume P: "\<forall>j. 0 < j \<and> j < length es \<longrightarrow> cmp (es ! ((j - 1) div 2)) (es ! j) \<le> 0"
  show "heap_inv cmp es"
    unfolding heap_inv_def
  proof (intro allI impI conjI)
    fix i assume "2 * i + 1 < length es"
    then show "cmp (es ! i) (es ! (2 * i + 1)) \<le> 0"
      using P[rule_format, of "2 * i + 1"] by simp
  next
    fix i assume "2 * i + 2 < length es"
    then show "cmp (es ! i) (es ! (2 * i + 2)) \<le> 0"
      using P[rule_format, of "2 * i + 2"] by simp
  qed
qed

lemma valid_total: "valid_comparator cmp \<Longrightarrow> 0 \<le> cmp b a \<Longrightarrow> cmp a b \<le> 0"
  unfolding valid_comparator_def by blast

lemma valid_trans: "valid_comparator cmp \<Longrightarrow> cmp a b \<le> 0 \<Longrightarrow> cmp b c \<le> 0 \<Longrightarrow> cmp a c \<le> 0"
  unfolding valid_comparator_def by blast

lemma up_inv_swap:
  assumes v: "valid_comparator cmp" and u: "up_inv cmp es i"
    and i: "0 < i" "i < length es"
    and c: "\<not> cmp (es ! i) (es ! ((i - 1) div 2)) > 0"
  shows "up_inv cmp (es[i := es ! ((i - 1) div 2), (i - 1) div 2 := es ! i]) ((i - 1) div 2)"
proof -
  define p where "p = (i - 1) div 2"
  define es' where "es' = es[i := es ! p, p := es ! i]"
  have pi: "p < i" using i unfolding p_def by arith
  have len: "length es' = length es" unfolding es'_def by simp
  have at_i: "es' ! i = es ! p" and at_p: "es' ! p = es ! i"
    and other: "\<And>k. k \<noteq> i \<Longrightarrow> k \<noteq> p \<Longrightarrow> es' ! k = es ! k"
    using pi i unfolding es'_def by (simp_all add: nth_list_update)
  have ip: "cmp (es ! i) (es ! p) \<le> 0" using c unfolding p_def by simp
  have U1: "\<And>j. 0 < j \<Longrightarrow> j < length es \<Longrightarrow> j \<noteq> i \<Longrightarrow> cmp (es ! ((j - 1) div 2)) (es ! j) \<le> 0"
    using u unfolding up_inv_def by blast
  have U2: "\<And>j. 0 < j \<Longrightarrow> j < length es \<Longrightarrow> (j - 1) div 2 = i \<Longrightarrow> cmp (es ! p) (es ! j) \<le> 0"
    using u i unfolding up_inv_def p_def by blast
  have "up_inv cmp es' p"
    unfolding up_inv_def len
  proof (intro allI impI conjI)
    fix j assume j: "0 < j \<and> j < length es" and jp: "j \<noteq> p"
    define q where "q = (j - 1) div 2"
    have qj: "q < j" using j unfolding q_def by arith
    show "cmp (es' ! ((j - 1) div 2)) (es' ! j) \<le> 0"
    proof (cases "j = i")
      case True
      then show ?thesis using at_i at_p ip p_def by simp
    next
      case ji: False
      show ?thesis
      proof (cases "q = i")
        case True
        then have "cmp (es ! p) (es ! j) \<le> 0" using U2 j q_def by simp
        then show ?thesis using True at_i other[of j] ji jp q_def by simp
      next
        case qi: False
        show ?thesis
        proof (cases "q = p")
          case True
          have "cmp (es ! p) (es ! j) \<le> 0" using U1[of j] j ji True q_def by simp
          then have "cmp (es ! i) (es ! j) \<le> 0" using valid_trans[OF v ip] by blast
          then show ?thesis using True at_p other[of j] ji jp q_def by simp
        next
          case False
          then show ?thesis using U1[of j] j ji jp qi other[of j] other[of q] q_def by simp
        qed
      qed
    qed
  next
    fix j assume j: "0 < j \<and> j < length es" and jp: "(j - 1) div 2 = p \<and> 0 < p"
    define g where "g = (p - 1) div 2"
    have gp: "g < p" using jp unfolding g_def by arith
    have g: "es' ! g = es ! g" using other[of g] gp pi by simp
    have gp_le: "cmp (es ! g) (es ! p) \<le> 0" using U1[of p] jp pi i unfolding g_def by simp
    show "cmp (es' ! ((p - 1) div 2)) (es' ! j) \<le> 0"
    proof (cases "j = i")
      case True
      then show ?thesis using g at_i gp_le g_def by simp
    next
      case False
      have "j \<noteq> p" using jp j by auto
      have "cmp (es ! p) (es ! j) \<le> 0" using U1[of j] j False jp by simp
      then have "cmp (es ! g) (es ! j) \<le> 0" using valid_trans[OF v gp_le] by blast
      then show ?thesis using g other[of j] False \<open>j \<noteq> p\<close> g_def by simp
    qed
  qed
  then show ?thesis unfolding es'_def p_def .
qed

lemma valid_refl: "valid_comparator cmp \<Longrightarrow> cmp a a \<le> 0"
  using valid_total[of cmp a a] by linarith

lemma upHeap_heap_inv:
  "valid_comparator cmp \<Longrightarrow> up_inv cmp es i \<Longrightarrow> i < length es \<Longrightarrow>
   upHeap cmp es i = Some es' \<Longrightarrow> heap_inv cmp es'"
proof (induction cmp es i rule: upHeap.induct)
  case (1 cmp es i)
  let ?p = "(i - 1) div 2"
  have U: "\<And>j. 0 < j \<Longrightarrow> j < length es \<Longrightarrow> j \<noteq> i \<Longrightarrow> cmp (es ! ((j - 1) div 2)) (es ! j) \<le> 0"
    using "1.prems"(2) unfolding up_inv_def by blast
  show ?case
  proof (cases "0 < i")
    case False
    then have "es' = es" using "1.prems"(4) by (subst (asm) upHeap.simps) simp
    then show ?thesis using U False unfolding heap_inv_parent by simp
  next
    case pos: True
    show ?thesis
    proof (cases "cmp (es ! i) (es ! ?p) > 0")
      case True
      then have "es' = es" using "1.prems"(3,4) pos
        by (subst (asm) upHeap.simps) (simp add: Let_def)
      moreover have "cmp (es ! ?p) (es ! i) \<le> 0"
        using valid_total[OF "1.prems"(1), of "es ! i" "es ! ?p"] True by simp
      ultimately show ?thesis using U unfolding heap_inv_parent by metis
    next
      case False
      let ?es = "es[i := es ! ?p, ?p := es ! i]"
      have "upHeap cmp ?es ?p = Some es'"
        using "1.prems"(3,4) pos False by (subst (asm) upHeap.simps) (simp add: Let_def)
      moreover have "up_inv cmp ?es ?p"
        using up_inv_swap[OF "1.prems"(1,2) pos "1.prems"(3) False] .
      moreover have "?p < length ?es" using "1.prems"(3) by simp
      ultimately show ?thesis
        using "1.IH"[of ?p] pos False "1.prems"(1,3) by simp
    qed
  qed
qed

lemma up_inv_append:
  assumes "heap_inv cmp es"
  shows "up_inv cmp (es @ [x]) (length es)"
  unfolding up_inv_def
proof (intro allI impI conjI)
  fix j assume j: "0 < j \<and> j < length (es @ [x])" and n: "j \<noteq> length es"
  then have jl: "j < length es" by simp
  then have "(j - 1) div 2 < length es" by arith
  then show "cmp ((es @ [x]) ! ((j - 1) div 2)) ((es @ [x]) ! j) \<le> 0"
    using assms j jl unfolding heap_inv_parent by (simp add: nth_append)
next
  fix j assume j: "0 < j \<and> j < length (es @ [x])" and "(j - 1) div 2 = length es \<and> 0 < length es"
  then have "0 < j" "j < Suc (length es)" "length es \<le> (j - 1) div 2" by simp_all
  then have False by arith
  then show "cmp ((es @ [x]) ! ((length es - 1) div 2)) ((es @ [x]) ! j) \<le> 0" ..
qed

lemma Insert_total:
  "\<exists>m'. Insert m x = Some m' \<and> compare m' = compare m \<and>
        Size m' = Suc (Size m) \<and> mset (elements m') = add_mset x (mset (elements m))"
proof -
  obtain es' where "upHeap (compare m) (elements m @ [x]) (length (elements m)) = Some es'"
    "length es' = length (elements m @ [x])" "mset es' = mset (elements m @ [x])"
    using upHeap_Some[of "length (elements m)" "elements m @ [x]" "compare m"] by auto
  then show ?thesis by (simp add: Insert_def Size_def)
qed

lemma Insert_heap_ok:
  assumes "valid_comparator (compare m)" "heap_ok m" "Insert m x = Some m'"
  shows "heap_ok m'"
proof -
  from assms(3) obtain es' where
    up: "upHeap (compare m) (elements m @ [x]) (length (elements m)) = Some es'"
    and m': "m' = m\<lparr>elements := es'\<rparr>"
    by (auto simp: Insert_def split: option.splits)
  have "up_inv (compare m) (elements m @ [x]) (length (elements m))"
    using up_inv_append assms(2) by (simp add: heap_ok_def)
  then have "heap_inv (compare m) es'"
    using upHeap_heap_inv[OF assms(1) _ _ up] by simp
  then show ?thesis by (simp add: heap_ok_def m')
qed

lemma smallest_of_le:
  assumes v: "valid_comparator cmp" and t: "t < length es" "t = i \<or> t = 2 * i + 1 \<or> t = 2 * i + 2"
  shows "cmp (es ! smallest_of cmp es i) (es ! t) \<le> 0"
proof -
  define l where "l = 2 * i + 1"
  define r where "r = 2 * i + 2"
  define s1 where "s1 = (if l < length es \<and> cmp (es ! l) (es ! i) < 0 then l else i)"
  have s: "smallest_of cmp es i = (if r < length es \<and> cmp (es ! r) (es ! s1) < 0 then r else s1)"
    by (simp add: smallest_of_def s1_def l_def r_def)
  have s1_i: "cmp (es ! s1) (es ! i) \<le> 0"
    using valid_refl[OF v] by (simp add: s1_def)
  have s1_l: "l < length es \<Longrightarrow> cmp (es ! s1) (es ! l) \<le> 0"
    using valid_refl[OF v] valid_total[OF v, of "es ! l" "es ! i"] by (simp add: s1_def)
  have s1_any: "cmp (es ! s1) (es ! t) \<le> 0" if "t = i \<or> t = l" "t < length es" for t
    using that s1_i s1_l by blast
  show ?thesis
  proof (cases "r < length es \<and> cmp (es ! r) (es ! s1) < 0")
    case True
    have sr: "smallest_of cmp es i = r" unfolding s using True by (rule if_P)
    have rs1: "cmp (es ! r) (es ! s1) \<le> 0" using True by simp
    show ?thesis
    proof (cases "t = r")
      case True
      then show ?thesis using sr valid_refl[OF v] by simp
    next
      case False
      then have "t = i \<or> t = l" using t(2) l_def r_def by simp
      then show ?thesis using valid_trans[OF v rs1 s1_any] t(1) sr by simp
    qed
  next
    case False
    have ss: "smallest_of cmp es i = s1" unfolding s using False by (rule if_not_P)
    show ?thesis
    proof (cases "t = r")
      case True
      then have "0 \<le> cmp (es ! r) (es ! s1)" using False t(1) by simp
      then show ?thesis using valid_total[OF v] ss True by simp
    next
      case False
      then have "t = i \<or> t = l" using t(2) l_def r_def by simp
      then show ?thesis using s1_any t(1) ss by simp
    qed
  qed
qed

lemma down_inv_swap:
  assumes v: "valid_comparator cmp" and d: "down_inv cmp es i"
    and ne: "smallest_of cmp es i \<noteq> i"
  shows "down_inv cmp (es[i := es ! smallest_of cmp es i, smallest_of cmp es i := es ! i])
           (smallest_of cmp es i)"
proof -
  define s where "s = smallest_of cmp es i"
  define es' where "es' = es[i := es ! s, s := es ! i]"
  have sc: "s = 2 * i + 1 \<or> s = 2 * i + 2" and sl: "s < length es"
    using smallest_of_cases[of cmp es i] ne unfolding s_def by auto
  have i_lt_s: "i < s" and il: "i < length es" and ps: "(s - 1) div 2 = i"
    using sc sl by auto
  have len: "length es' = length es" unfolding es'_def by simp
  have at_i: "es' ! i = es ! s" and at_s: "es' ! s = es ! i"
    and other: "\<And>k. k \<noteq> i \<Longrightarrow> k \<noteq> s \<Longrightarrow> es' ! k = es ! k"
    using i_lt_s il sl unfolding es'_def by (simp_all add: nth_list_update)
  have S: "\<And>t. t < length es \<Longrightarrow> t = i \<or> t = 2 * i + 1 \<or> t = 2 * i + 2 \<Longrightarrow>
            cmp (es ! s) (es ! t) \<le> 0"
    using smallest_of_le[OF v] unfolding s_def by blast
  have D1: "\<And>j. 0 < j \<Longrightarrow> j < length es \<Longrightarrow> (j - 1) div 2 \<noteq> i \<Longrightarrow>
            cmp (es ! ((j - 1) div 2)) (es ! j) \<le> 0"
    using d unfolding down_inv_def by blast
  have D2: "\<And>j. 0 < j \<Longrightarrow> j < length es \<Longrightarrow> (j - 1) div 2 = i \<Longrightarrow> 0 < i \<Longrightarrow>
            cmp (es ! ((i - 1) div 2)) (es ! j) \<le> 0"
    using d unfolding down_inv_def by blast
  have "down_inv cmp es' s"
    unfolding down_inv_def len
  proof (intro allI impI conjI)
    fix j assume j: "0 < j \<and> j < length es" and jq: "(j - 1) div 2 \<noteq> s"
    define q where "q = (j - 1) div 2"
    have qj: "q < j" using j unfolding q_def by arith
    show "cmp (es' ! ((j - 1) div 2)) (es' ! j) \<le> 0"
    proof (cases "q = i")
      case True
      then have jc: "j = 2 * i + 1 \<or> j = 2 * i + 2" using j unfolding q_def by arith
      show ?thesis
      proof (cases "j = s")
        case True
        then show ?thesis using S[of i] il at_i at_s ps by simp
      next
        case False
        then have "es' ! j = es ! j" using other[of j] qj True by simp
        then show ?thesis using S[of j] jc j at_i True q_def by simp
      qed
    next
      case qi: False
      show ?thesis
      proof (cases "j = i")
        case True
        have "0 < i" using True j by simp
        then have "cmp (es ! ((i - 1) div 2)) (es ! s) \<le> 0"
          using D2[of s] sl i_lt_s ps by simp
        moreover have "es' ! ((i - 1) div 2) = es ! ((i - 1) div 2)"
          using other[of "(i - 1) div 2"] qj i_lt_s True q_def by simp
        ultimately show ?thesis using True at_i by simp
      next
        case False
        have "j \<noteq> s" using qi ps q_def by auto
        then have "es' ! j = es ! j" "es' ! q = es ! q"
          using other[of j] other[of q] False qi jq q_def by simp_all
        then show ?thesis using D1[of j] j qi q_def by simp
      qed
    qed
  next
    fix j assume j: "0 < j \<and> j < length es" and jp: "(j - 1) div 2 = s \<and> 0 < s"
    have "s < j" using jp j by arith
    then have "es' ! j = es ! j" using other[of j] i_lt_s by simp
    moreover have "cmp (es ! s) (es ! j) \<le> 0" using D1[of j] j jp i_lt_s by simp
    ultimately show "cmp (es' ! ((s - 1) div 2)) (es' ! j) \<le> 0"
      using ps at_i by simp
  qed
  then show ?thesis unfolding es'_def s_def .
qed

lemma downHeap_heap_inv:
  "valid_comparator cmp \<Longrightarrow> down_inv cmp es i \<Longrightarrow> heap_inv cmp (downHeap cmp es i)"
proof (induction cmp es i rule: downHeap_induct_step)
  case (step cmp es i)
  let ?s = "smallest_of cmp es i"
  show ?case
  proof (cases "?s = i")
    case True
    have "cmp (es ! ((j - 1) div 2)) (es ! j) \<le> 0" if j: "0 < j" "j < length es" for j
    proof (cases "(j - 1) div 2 = i")
      case False
      then show ?thesis using step.prems(2) j unfolding down_inv_def by blast
    next
      case pi: True
      then have "j = 2 * i + 1 \<or> j = 2 * i + 2" using j by arith
      then show ?thesis using smallest_of_le[OF step.prems(1), of j es i] j True pi by simp
    qed
    then have "heap_inv cmp es" unfolding heap_inv_parent by blast
    then show ?thesis using True by (subst downHeap_step) simp
  next
    case False
    then show ?thesis
      using step.IH[OF False step.prems(1) down_inv_swap[OF step.prems False]]
      by (subst downHeap_step) simp
  qed
qed

lemma down_inv_root:
  assumes "heap_inv cmp es" "es \<noteq> []"
  shows "down_inv cmp (take (length es - 1) (es[0 := es ! (length es - 1)])) 0"
  unfolding down_inv_def
proof (intro allI impI conjI)
  fix j
  assume j: "0 < j \<and> j < length (take (length es - 1) (es[0 := es ! (length es - 1)]))"
    and p: "(j - 1) div 2 \<noteq> 0"
  have jl: "j < length es - 1" using j by simp
  then have q: "(j - 1) div 2 < length es - 1" by arith
  have "0 < j \<and> j < length es" using j jl by auto
  then have "cmp (es ! ((j - 1) div 2)) (es ! j) \<le> 0"
    using assms(1) unfolding heap_inv_parent by blast
  then show "cmp (take (length es - 1) (es[0 := es ! (length es - 1)]) ! ((j - 1) div 2))
          (take (length es - 1) (es[0 := es ! (length es - 1)]) ! j) \<le> 0"
    using jl q p j by simp
next
  fix j :: nat
  assume "(j - 1) div 2 = 0 \<and> (0::nat) < 0"
  then show "cmp (take (length es - 1) (es[0 := es ! (length es - 1)]) ! ((0 - 1) div 2))
          (take (length es - 1) (es[0 := es ! (length es - 1)]) ! j) \<le> 0" by simp
qed

lemma Remove_nonempty:
  assumes "0 < Size m"
  shows "fst (Remove m) = (elements m ! 0, None)"
    and "compare (snd (Remove m)) = compare m"
    and "Size (snd (Remove m)) = Size m - 1"
    and "add_mset (elements m ! 0) (mset (elements (snd (Remove m)))) = mset (elements m)"
proof -
  let ?es = "elements m"
  let ?n = "length ?es"
  let ?es2 = "take (?n - 1) (?es[0 := ?es ! (?n - 1)])"
  have R: "Remove m = ((?es ! 0, None), m\<lparr>elements := downHeap (compare m) ?es2 0\<rparr>)"
    using assms by (simp add: Remove_def Size_def Let_def)
  show "fst (Remove m) = (elements m ! 0, None)" using R by simp
  show "compare (snd (Remove m)) = compare m" using R by simp
  show "Size (snd (Remove m)) = Size m - 1"
    using R by (simp add: Size_def downHeap_length_mset)
  have ne: "?es \<noteq> []" using assms by (simp add: Size_def)
  have "add_mset (?es ! 0) (mset ?es2) = mset ?es"
  proof (cases "?n = 1")
    case True
    then obtain x where "?es = [x]" by (cases ?es) auto
    then show ?thesis by simp
  next
    case False
    then obtain x xs where xs: "?es = x # xs" "xs \<noteq> []" using ne by (cases ?es) auto
    then have "?es2 = last xs # butlast xs"
      by (simp add: last_conv_nth butlast_conv_take take_Cons' )
    then have "mset ?es2 = mset xs"
      using arg_cong[OF append_butlast_last_id[OF xs(2)], of mset] by simp
    then show ?thesis using xs by simp
  qed
  then show "add_mset (elements m ! 0) (mset (elements (snd (Remove m)))) = mset (elements m)"
    using R by (simp add: downHeap_length_mset)
qed

lemma Remove_heap_ok:
  assumes "valid_comparator (compare m)" "heap_ok m"
  shows "heap_ok (snd (Remove m))"
proof (cases "Size m = 0")
  case True
  then show ?thesis using assms(2) by (simp add: Remove_def)
next
  case False
  then have ne: "elements m \<noteq> []" by (simp add: Size_def)
  have "heap_inv (compare m)
          (downHeap (compare m) (take (length (elements m) - 1)
             ((elements m)[0 := elements m ! (length (elements m) - 1)])) 0)"
    using downHeap_heap_inv[OF assms(1) down_inv_root[OF _ ne]] assms(2)
    by (simp add: heap_ok_def)
  then show ?thesis using False by (simp add: Remove_def Size_def Let_def heap_ok_def)
qed

lemma valid_Compare: "valid_comparator (Compare :: 'a::linorder \<Rightarrow> 'a \<Rightarrow> int)"
  by (auto simp: valid_comparator_def Compare_def split: if_splits)

lemma valid_Compare_flip: "valid_comparator (\<lambda>a b :: 'a::linorder. Compare b a)"
  by (auto simp: valid_comparator_def Compare_def split: if_splits)

lemma heap_inv_Nil: "heap_inv cmp []"
  by (simp add: heap_inv_def)

lemma apply_calls_heap_ok:
  "valid_comparator (compare m) \<Longrightarrow> heap_ok m \<Longrightarrow>
   \<exists>m'. apply_calls m cs = Some m' \<and> heap_ok m' \<and> compare m' = compare m"
proof (induction cs arbitrary: m)
  case Nil
  then show ?case by simp
next
  case (Cons c cs)
  show ?case
  proof (cases c)
    case (CallInsert x)
    obtain m1 where m1: "Insert m x = Some m1" "compare m1 = compare m"
      using Insert_total[of m x] by blast
    have "heap_ok m1" using Insert_heap_ok[OF Cons.prems m1(1)] .
    then show ?thesis using Cons.IH[of m1] Cons.prems(1) m1 CallInsert by simp
  next
    case CallRemove
    let ?m1 = "snd (Remove m)"
    have c: "compare ?m1 = compare m"
      by (cases "Size m = 0") (simp_all add: Remove_def Let_def)
    have "heap_ok ?m1" using Remove_heap_ok[OF Cons.prems] .
    then show ?thesis using Cons.IH[of ?m1] Cons.prems(1) c CallRemove by simp
  qed
qed

lemma insert_range_total:
  "\<exists>h'. insert_range h xs = Some h' \<and> compare h' = compare h \<and>
        Size h' = Size h + length xs \<and>
        mset (elements h') = mset (elements h) + mset xs"
proof (induction xs arbitrary: h)
  case Nil
  then show ?case by simp
next
  case (Cons x xs)
  obtain h1 where h1: "Insert h x = Some h1" "compare h1 = compare h"
    "Size h1 = Suc (Size h)" "mset (elements h1) = add_mset x (mset (elements h))"
    using Insert_total[of h x] by blast
  obtain h' where "insert_range h1 xs = Some h'" "compare h' = compare h1"
    "Size h' = Size h1 + length xs" "mset (elements h') = mset (elements h1) + mset xs"
    using Cons.IH[of h1] by blast
  then show ?case using h1 by simp
qed

lemma insert_range_heap_ok:
  "valid_comparator (compare h) \<Longrightarrow> heap_ok h \<Longrightarrow> insert_range h xs = Some h' \<Longrightarrow> heap_ok h'"
proof (induction xs arbitrary: h)
  case Nil
  then show ?case by simp
next
  case (Cons x xs)
  obtain h1 where h1: "Insert h x = Some h1" "compare h1 = compare h"
    using Insert_total[of h x] by blast
  have "heap_ok h1" using Insert_heap_ok[OF Cons.prems(1,2) h1(1)] .
  then show ?case using Cons.IH[of h1 ] Cons.prems h1 by simp
qed

lemma heap_ok_NewMinHeap: "heap_ok NewMinHeap"
  by (simp add: heap_ok_def NewMinHeap_def heap_inv_Nil)

lemma heap_ok_NewMaxHeap: "heap_ok NewMaxHeap"
  by (simp add: heap_ok_def NewMaxHeap_def heap_inv_Nil)

lemma heap_ok_guard:
  assumes "heap_ok heap1"
  shows "\<not> (Size heap1 > 1 \<and> compare heap1 (elements heap1 ! 0) (elements heap1 ! 1) > 0)"
proof
  assume a: "Size heap1 > 1 \<and> compare heap1 (elements heap1 ! 0) (elements heap1 ! 1) > 0"
  then have "compare heap1 (elements heap1 ! 0) (elements heap1 ! (2 * 0 + 1)) \<le> 0"
    using assms unfolding heap_ok_def heap_inv_def Size_def by fastforce
  then show False using a by simp
qed

lemma CombinarMonticulos_total:
  "\<exists>c. CombinarMonticulos heap1 heap2 = Some c \<and>
       compare c = (if Size heap1 > 1 \<and> compare heap1 (elements heap1 ! 0) (elements heap1 ! 1) > 0
                    then (\<lambda>a b. Compare b a) else Compare) \<and>
       Size c = Size heap1 + Size heap2 \<and>
       mset (elements c) = mset (elements heap1) + mset (elements heap2) \<and>
       heap_ok c"
proof -
  define c0 :: "'a Heap" where
    "c0 = (if Size heap1 > 1 \<and> compare heap1 (elements heap1 ! 0) (elements heap1 ! 1) > 0
           then NewMaxHeap else NewMinHeap)"
  have c0: "elements c0 = []" "valid_comparator (compare c0)" "heap_ok c0"
    "compare c0 = (if Size heap1 > 1 \<and> compare heap1 (elements heap1 ! 0) (elements heap1 ! 1) > 0
                    then (\<lambda>a b. Compare b a) else Compare)"
    using valid_Compare valid_Compare_flip heap_ok_NewMinHeap heap_ok_NewMaxHeap
    by (auto simp: c0_def NewMaxHeap_def NewMinHeap_def)
  obtain c1 where c1: "insert_range c0 (elements heap1) = Some c1" "compare c1 = compare c0"
    "Size c1 = Size c0 + length (elements heap1)"
    "mset (elements c1) = mset (elements c0) + mset (elements heap1)"
    using insert_range_total[of c0 "elements heap1"] by blast
  obtain c2 where c2: "insert_range c1 (elements heap2) = Some c2" "compare c2 = compare c1"
    "Size c2 = Size c1 + length (elements heap2)"
    "mset (elements c2) = mset (elements c1) + mset (elements heap2)"
    using insert_range_total[of c1 "elements heap2"] by blast
  have ok1: "heap_ok c1" using insert_range_heap_ok[OF c0(2,3) c1(1)] .
  have ok2: "heap_ok c2" using insert_range_heap_ok[OF _ ok1 c2(1)] c0(2) c1(2) by simp
  have "CombinarMonticulos heap1 heap2 = Some c2"
    using c1(1) c2(1) unfolding CombinarMonticulos_def c0_def[symmetric] by (simp add: Let_def)
  then show ?thesis using c0 c1 c2 ok2 by (simp add: Size_def)
qed

lemma insert_range_literal:
  assumes "map_option elements (insert_range h xs) = Some es"
  shows "insert_range h xs = Some \<lparr>elements = es, compare = compare h\<rparr>"
proof -
  obtain h' where h': "insert_range h xs = Some h'" "compare h' = compare h"
    using insert_range_total[of h xs] by blast
  then have "elements h' = es" using assms by simp
  then have "h' = \<lparr>elements = es, compare = compare h\<rparr>" using h'(2) by (cases h') simp
  then show ?thesis using h'(1) by simp
qed

text \<open>
  A client that calls \<open>Remove\<close> until \<open>Size()\<close> is 0 and keeps the returned elements in
  the order of the calls.
\<close>

lemma Remove_Size_less:
  "0 < Size m \<Longrightarrow> (r, m') = Remove m \<Longrightarrow> Size m' < Size m"
  using Remove_nonempty(3)[of m] by (metis diff_less snd_conv zero_less_one)

function drain :: "'a::default Heap \<Rightarrow> 'a list" where
  "drain m =
     (if Size m = 0 then []
      else (case Remove m of ((element, err), m') \<Rightarrow> element # drain m'))"
  by pat_completeness auto
termination
  by (relation "measure Size") (auto intro: Remove_Size_less)


declare drain.simps [simp del]

lemma root_least:
  assumes v: "valid_comparator cmp" and h: "heap_inv cmp es"
  shows "j < length es \<Longrightarrow> cmp (es ! 0) (es ! j) \<le> 0"
proof (induction j rule: less_induct)
  case (less j)
  show ?case
  proof (cases "j = 0")
    case True
    then show ?thesis using valid_refl[OF v] by simp
  next
    case False
    let ?p = "(j - 1) div 2"
    have p: "?p < j" using False by arith
    have "cmp (es ! ?p) (es ! j) \<le> 0"
      using h False less.prems unfolding heap_inv_parent by simp
    moreover have "cmp (es ! 0) (es ! ?p) \<le> 0"
      using less.IH[OF p] p less.prems by simp
    ultimately show ?thesis using valid_trans[OF v] by blast
  qed
qed

lemma drain_sorted:
  "valid_comparator (compare m) \<Longrightarrow> heap_ok m \<Longrightarrow>
   mset (drain m) = mset (elements m) \<and>
   sorted_wrt (\<lambda>a b. compare m a b \<le> 0) (drain m) \<and>
   length (drain m) = Size m"
proof (induction m rule: drain.induct)
  case (1 m)
  show ?case
  proof (cases "Size m = 0")
    case True
    then show ?thesis by (subst drain.simps, simp add: Size_def)+
  next
    case False
    let ?m' = "snd (Remove m)"
    let ?x = "elements m ! 0"
    have pos: "0 < Size m" using False by simp
    have R: "Remove m = ((?x, None), ?m')"
      using Remove_nonempty(1)[OF pos] by (metis prod.collapse)
    have c: "compare ?m' = compare m" using Remove_nonempty(2)[OF pos] .
    have ms: "add_mset ?x (mset (elements ?m')) = mset (elements m)"
      using Remove_nonempty(4)[OF pos] .
    have ok: "heap_ok ?m'" using Remove_heap_ok[OF "1.prems"] .
    have IH: "mset (drain ?m') = mset (elements ?m') \<and>
          sorted_wrt (\<lambda>a b. compare m a b \<le> 0) (drain ?m') \<and> length (drain ?m') = Size ?m'"
      using "1.IH"[OF False R[symmetric] refl] "1.prems"(1) ok c by simp
    have d: "drain m = ?x # drain ?m'"
      using False Remove_nonempty(1)[OF pos] by (subst drain.simps) (simp add: split_beta)
    have "\<forall>y \<in> set (drain ?m'). compare m ?x y \<le> 0"
    proof
      fix y assume "y \<in> set (drain ?m')"
      then have "y \<in># mset (elements ?m')" using IH by (metis set_mset_mset)
      then have "y \<in> set (elements m)" using ms by (metis insert_iff set_mset_add_mset_insert set_mset_mset)
      then obtain j where "j < length (elements m)" "elements m ! j = y"
        by (auto simp: in_set_conv_nth)
      then show "compare m ?x y \<le> 0"
        using root_least[OF "1.prems"(1), of "elements m" j] "1.prems"(2)
        by (simp add: heap_ok_def)
    qed
    then show ?thesis using d IH ms Remove_nonempty(3)[OF pos] pos by simp
  qed
qed


lemma Compare_le: "Compare a b \<le> 0 \<longleftrightarrow> a \<le> b"
  by (auto simp: Compare_def)

lemma drain_min_heap:
  assumes "compare m = Compare" "heap_ok m"
  shows "drain m = sort (elements m)"
proof -
  have v: "valid_comparator (compare m)" using assms(1) valid_Compare by simp
  have "mset (drain m) = mset (elements m)" "sorted_wrt (\<lambda>a b. Compare a b \<le> 0) (drain m)"
    using drain_sorted[OF v assms(2)] assms(1) by simp_all
  then have "mset (drain m) = mset (elements m)" "sorted (drain m)"
    by (simp_all add: Compare_le)
  then show ?thesis using properties_for_sort by metis
qed

lemma drain_max_heap:
  assumes "compare m = (\<lambda>a b. Compare b a)" "heap_ok m"
  shows "drain m = rev (sort (elements m))"
proof -
  have v: "valid_comparator (compare m)" using assms(1) valid_Compare_flip by simp
  have "mset (drain m) = mset (elements m)" "sorted_wrt (\<lambda>a b. Compare b a \<le> 0) (drain m)"
    using drain_sorted[OF v assms(2)] assms(1) by simp_all
  then have "mset (rev (drain m)) = mset (elements m)" "sorted (rev (drain m))"
    by (simp_all add: sorted_wrt_rev Compare_le)
  then have "sort (elements m) = rev (drain m)" using properties_for_sort by metis
  then show ?thesis by simp
qed

lemma EnesimoMaximo_loop_drain:
  "i \<le> n \<Longrightarrow> nat (n - i) \<le> Size copiaHeap \<Longrightarrow>
   EnesimoMaximo_loop copiaHeap n i maximo =
     ((if i = n then maximo else drain copiaHeap ! (nat (n - i) - 1)), None)"
proof (induction copiaHeap n i maximo rule: EnesimoMaximo_loop.induct)
  case (1 copiaHeap n i maximo)
  show ?case
  proof (cases "i < n")
    case False
    then show ?thesis using "1.prems" by (subst EnesimoMaximo_loop.simps) simp
  next
    case True
    let ?c' = "snd (Remove copiaHeap)"
    let ?x = "elements copiaHeap ! 0"
    have pos: "0 < Size copiaHeap" using True "1.prems" by simp
    have R: "Remove copiaHeap = ((?x, None), ?c')"
      using Remove_nonempty(1)[OF pos] by (metis prod.collapse)
    have sz: "Size ?c' = Size copiaHeap - 1" using Remove_nonempty(3)[OF pos] .
    have d: "drain copiaHeap = ?x # drain ?c'"
      using pos Remove_nonempty(1)[OF pos] by (subst drain.simps) (simp add: split_beta)
    have step: "EnesimoMaximo_loop copiaHeap n i maximo = EnesimoMaximo_loop ?c' n (i + 1) ?x"
      using True Remove_nonempty(1)[OF pos]
      by (subst EnesimoMaximo_loop.simps) (simp add: split_beta)
    have "EnesimoMaximo_loop ?c' n (i + 1) ?x =
            ((if i + 1 = n then ?x else drain ?c' ! (nat (n - (i + 1)) - 1)), None)"
      using "1.IH"[OF True R[symmetric] refl] True "1.prems" sz by simp
    moreover have "(if i + 1 = n then ?x else drain ?c' ! (nat (n - (i + 1)) - 1))
                   = drain copiaHeap ! (nat (n - i) - 1)"
    proof (cases "i + 1 = n")
      case True
      then show ?thesis using d by simp
    next
      case False
      then have "nat (n - i) - 1 = Suc (nat (n - (i + 1)) - 1)" using True by simp
      then show ?thesis using d False by simp
    qed
    ultimately show ?thesis using step True by simp
  qed
qed

lemma EnesimoMaximo_in_range:
  assumes "1 \<le> n" "n \<le> int (Size heap)"
  shows "EnesimoMaximo heap n = (drain heap ! (nat n - 1), None)"
proof -
  have h: "\<lparr>elements = elements heap, compare = compare heap\<rparr> = heap" by simp
  have "0 \<le> n" "nat (n - 0) \<le> Size heap" using assms by simp_all
  then have "EnesimoMaximo_loop heap n 0 default = (drain heap ! (nat n - 1), None)"
    using EnesimoMaximo_loop_drain[of 0 n heap default] assms(1) by simp
  then show ?thesis
    unfolding EnesimoMaximo_def Let_def h using assms by simp
qed

section \<open>The pointer-level operations refine the value-level ones\<close>

lemma objs_put [simp]: "objs (put s sl es) = objs s"
  by (simp add: put_def)

lemma length_arrays_put [simp]: "length (arrays (put s sl es)) = length (arrays s)"
  by (simp add: put_def)

lemma arrays_put_other [simp]: "a \<noteq> sl_base sl \<Longrightarrow> arrays (put s sl es) ! a = arrays s ! a"
  by (simp add: put_def)

lemma arrays_put_same:
  "sl_base sl < length (arrays s) \<Longrightarrow>
   arrays (put s sl es) ! sl_base sl = es @ drop (length es) (arrays s ! sl_base sl)"
  by (simp add: put_def)

lemma cap_put:
  "sl_base sl < length (arrays s) \<Longrightarrow> length es \<le> cap s sl \<Longrightarrow> sl_base sl' = sl_base sl \<Longrightarrow>
   cap (put s sl es) sl' = cap s sl"
  by (simp add: cap_def put_def)

lemma view_put:
  "sl_base sl < length (arrays s) \<Longrightarrow> sl_base sl' = sl_base sl \<Longrightarrow> sl_len sl' = length es \<Longrightarrow>
   view (put s sl es) sl' = es"
  by (simp add: view_def put_def)

lemma Remove_p_refines:
  assumes v: "valid_ptr s m"
  shows "\<exists>s'. Remove_p m s = Some (fst (Remove (heap_of s m)), s') \<and>
              heap_of s' m = snd (Remove (heap_of s m)) \<and>
              valid_ptr s' m \<and>
              length (arrays s') = length (arrays s) \<and>
              sl_base (h_elements (objs s' ! m)) = sl_base (h_elements (objs s ! m)) \<and>
              same_except s s' m (sl_base (h_elements (objs s ! m)))"
proof -
  define h where "h = objs s ! m"
  define sl where "sl = h_elements h"
  have m: "m < length (objs s)" and b: "sl_base sl < length (arrays s)"
    and lc: "sl_len sl \<le> cap s sl"
    using v unfolding valid_ptr_def h_def sl_def by simp_all
  show ?thesis
  proof (cases "sl_len sl = 0")
    case True
    then have "Remove_p m s = Some ((default, Some EmptyContainer), s)"
      using m by (simp add: Remove_p_def h_def sl_def Let_def)
    moreover have "Remove (heap_of s m) = ((default, Some EmptyContainer), heap_of s m)"
      using True by (simp add: Remove_def Size_def heap_of_def view_def h_def sl_def)
    ultimately show ?thesis using v by (simp add: same_except_def)
  next
    case False
    define es where "es = view s sl"
    define n where "n = sl_len sl"
    have len_es: "length es = n" using lc unfolding es_def n_def view_def cap_def by simp
    define s1 where "s1 = put s sl (es[0 := es ! (n - 1)])"
    define sl' where "sl' = sl\<lparr>sl_len := n - 1\<rparr>"
    define s2 where "s2 = s1\<lparr>objs := (objs s1)[m := h\<lparr>h_elements := sl'\<rparr>]\<rparr>"
    define es2 where "es2 = downHeap (h_compare h) (view s2 sl') 0"
    define s3 where "s3 = put s2 sl' es2"
    have R: "Remove_p m s = Some ((es ! 0, None), s3)"
      using m False
      unfolding Remove_p_def s3_def es2_def s2_def sl'_def s1_def n_def es_def sl_def h_def
      by (simp add: Let_def)
    have base': "sl_base sl' = sl_base sl" unfolding sl'_def by simp
    have arr1: "arrays s1 ! sl_base sl = es[0 := es ! (n - 1)] @ drop n (arrays s ! sl_base sl)"
      unfolding s1_def using arrays_put_same[OF b] len_es by simp
    have v2: "view s2 sl' = take (n - 1) (es[0 := es ! (n - 1)])"
      unfolding view_def s2_def using arr1 base' len_es by (simp add: sl'_def)
    have len_es2: "length es2 = n - 1"
      unfolding es2_def using downHeap_length_mset[of "h_compare h" "view s2 sl'" 0] v2 len_es
      by simp
    have b2: "sl_base sl' < length (arrays s2)" unfolding s2_def s1_def using b base' by simp
    have cap1: "cap s1 sl = cap s sl"
      unfolding s1_def using cap_put[OF b, of "es[0 := es ! (n - 1)]" sl] len_es lc n_def by simp
    have cap2: "cap s2 sl' = cap s sl"
      using cap1 base' unfolding s2_def cap_def by simp
    have cap3: "cap s3 sl' = cap s sl"
      unfolding s3_def using cap_put[OF b2, of es2 sl'] len_es2 cap2 lc n_def by simp
    have v3: "view s3 sl' = es2"
      unfolding s3_def using view_put[OF b2, of sl' es2] len_es2 by (simp add: sl'_def)
    have o3: "objs s3 = (objs s)[m := h\<lparr>h_elements := sl'\<rparr>]"
      unfolding s3_def s2_def s1_def by simp
    have Rv: "Remove (heap_of s m) =
               ((es ! 0, None), \<lparr>elements = es2, compare = h_compare h\<rparr>)"
      using False len_es v2
      unfolding es2_def n_def es_def sl_def h_def
      by (simp add: Remove_def Size_def heap_of_def Let_def)
    have ho: "heap_of s3 m = \<lparr>elements = es2, compare = h_compare h\<rparr>"
      unfolding heap_of_def using o3 m v3 by simp
    have vp: "valid_ptr s3 m"
      unfolding valid_ptr_def using o3 m b2 cap3 lc
      by (simp add: s3_def sl'_def n_def)
    have la: "length (arrays s3) = length (arrays s)"
      unfolding s3_def s2_def s1_def by simp
    have ar: "a \<noteq> sl_base sl \<Longrightarrow> arrays s3 ! a = arrays s ! a" for a
      unfolding s3_def s2_def s1_def using base' by simp
    have se: "same_except s s3 m (sl_base sl)"
      unfolding same_except_def using o3 la ar by simp
    show ?thesis
      using R Rv ho vp la se o3 m base' by (simp add: h_def[symmetric] sl_def[symmetric])
  qed
qed


lemma same_except_trans:
  "same_except s s1 m b \<Longrightarrow> same_except s1 s2 m b \<Longrightarrow> same_except s s2 m b"
  unfolding same_except_def by auto

lemma same_except_refl: "same_except s s m b"
  unfolding same_except_def by simp

lemma EnesimoMaximo_loop_p_refines:
  "valid_ptr s c \<Longrightarrow>
   \<exists>s'. EnesimoMaximo_loop_p c n i maximo s
          = Some (EnesimoMaximo_loop (heap_of s c) n i maximo, s') \<and>
        same_except s s' c (sl_base (h_elements (objs s ! c)))"
proof (induction c n i maximo s rule: EnesimoMaximo_loop_p.induct)
  case (1 c n i maximo s)
  show ?case
  proof (cases "i < n")
    case False
    then show ?thesis
      by (subst EnesimoMaximo_loop_p.simps, subst EnesimoMaximo_loop.simps)
        (simp add: same_except_refl)
  next
    case True
    let ?b = "sl_base (h_elements (objs s ! c))"
    obtain s1 where s1: "Remove_p c s = Some (fst (Remove (heap_of s c)), s1)"
      "heap_of s1 c = snd (Remove (heap_of s c))" "valid_ptr s1 c"
      "sl_base (h_elements (objs s1 ! c)) = ?b" "same_except s s1 c ?b"
      using Remove_p_refines[OF "1.prems"] by blast
    obtain x err where xe: "fst (Remove (heap_of s c)) = (x, err)" by (cases "fst (Remove (heap_of s c))")
    then have Rv: "Remove (heap_of s c) = ((x, err), heap_of s1 c)"
      using s1(2) by (metis prod.collapse)
    show ?thesis
    proof (cases "err = None")
      case False
      have "EnesimoMaximo_loop_p c n i maximo s = Some ((x, err), s1)"
        using True s1(1) xe False by (subst EnesimoMaximo_loop_p.simps) simp
      moreover have "EnesimoMaximo_loop (heap_of s c) n i maximo = (x, err)"
        using True Rv False by (subst EnesimoMaximo_loop.simps) simp
      ultimately show ?thesis using s1(5) by simp
    next
      case None: True
      have a: "EnesimoMaximo_loop_p c n i maximo s = EnesimoMaximo_loop_p c n (i + 1) x s1"
        using True s1(1) xe None by (subst EnesimoMaximo_loop_p.simps) simp
      have b: "EnesimoMaximo_loop (heap_of s c) n i maximo
                 = EnesimoMaximo_loop (heap_of s1 c) n (i + 1) x"
        using True Rv None by (subst EnesimoMaximo_loop.simps) simp
      obtain s' where "EnesimoMaximo_loop_p c n (i + 1) x s1
          = Some (EnesimoMaximo_loop (heap_of s1 c) n (i + 1) x, s')"
        "same_except s1 s' c ?b"
        using "1.IH"[OF True s1(1)[unfolded xe] refl refl _ s1(3)] None s1(4) by auto
      then show ?thesis using a b same_except_trans[OF s1(5)] by auto
    qed
  qed
qed


lemma EnesimoMaximo_p_refines:
  assumes v: "valid_ptr s heap"
  shows "\<exists>s'. EnesimoMaximo_p heap n s = Some (EnesimoMaximo (heap_of s heap) n, s') \<and>
              preserved s s'"
proof -
  define h where "h = objs s ! heap"
  define k where "k = sl_len (h_elements h)"
  have m: "heap < length (objs s)" and b: "sl_base (h_elements h) < length (arrays s)"
    and lc: "k \<le> cap s (h_elements h)"
    using v unfolding valid_ptr_def h_def k_def by simp_all
  have sz: "Size (heap_of s heap) = k"
    using lc unfolding Size_def heap_of_def view_def cap_def h_def k_def by simp
  show ?thesis
  proof (cases "n < 1 \<or> n > int k")
    case True
    then have "EnesimoMaximo_p heap n s = Some ((default, Some InvalidRank), s)"
      using m unfolding EnesimoMaximo_p_def k_def h_def by (simp add: Let_def)
    moreover have "EnesimoMaximo (heap_of s heap) n = (default, Some InvalidRank)"
      using True sz by (simp add: EnesimoMaximo_def)
    ultimately show ?thesis by (simp add: preserved_def)
  next
    case False
    define sl where "sl = \<lparr>sl_base = length (arrays s), sl_len = k\<rparr>"
    define c where "c = length (objs s)"
    define src where "src = view s (h_elements h)"
    define s2 where "s2 = s\<lparr>arrays := arrays s @ [replicate k default],
                           objs := objs s @ [\<lparr>h_elements = sl, h_compare = h_compare h\<rparr>]\<rparr>"
    define s3 where "s3 = put s2 sl (take (min k (length src)) src)"
    have len_src: "length src = k"
      using lc unfolding src_def view_def cap_def k_def by simp
    have src2: "view s2 (h_elements h) = src"
      using b unfolding s2_def src_def view_def by (simp add: nth_append)
    have E: "EnesimoMaximo_p heap n s = EnesimoMaximo_loop_p c n 0 default s3"
      using m False src2
      unfolding EnesimoMaximo_p_def make_slice_def new_obj_def s3_def c_def s2_def sl_def
        src_def k_def h_def
      by (simp add: Let_def)
    have arr3: "arrays s3 = arrays s @ [src]"
      unfolding s3_def put_def s2_def sl_def using len_src by simp
    have o3: "objs s3 = objs s @ [\<lparr>h_elements = sl, h_compare = h_compare h\<rparr>]"
      unfolding s3_def s2_def by simp
    have oc: "objs s3 ! c = \<lparr>h_elements = sl, h_compare = h_compare h\<rparr>"
      using o3 unfolding c_def by simp
    have vc: "valid_ptr s3 c"
      unfolding valid_ptr_def cap_def using oc o3 arr3 len_src
      by (simp add: c_def sl_def)
    have hc: "heap_of s3 c = heap_of s heap"
      unfolding heap_of_def view_def using oc arr3 len_src
      by (simp add: sl_def src_def view_def h_def k_def)
    have p3: "preserved s s3"
      unfolding preserved_def using arr3 o3 by (simp add: nth_append)
    obtain s' where s': "EnesimoMaximo_loop_p c n 0 default s3
          = Some (EnesimoMaximo_loop (heap_of s3 c) n 0 default, s')"
      "same_except s3 s' c (sl_base (h_elements (objs s3 ! c)))"
      using EnesimoMaximo_loop_p_refines[OF vc] by blast
    have "preserved s s'"
      using p3 s'(2) oc unfolding preserved_def same_except_def c_def sl_def
      by (auto simp: arr3 o3)
    moreover have "EnesimoMaximo (heap_of s heap) n = EnesimoMaximo_loop (heap_of s heap) n 0 default"
    proof -
      have eq: "\<lparr>elements = elements (heap_of s heap), compare = compare (heap_of s heap)\<rparr>
              = heap_of s heap" by simp
      show ?thesis unfolding EnesimoMaximo_def Let_def eq using False sz by simp
    qed
    ultimately show ?thesis using E s'(1) hc by simp
  qed
qed


lemma append_slice_props:
  assumes b: "sl_base sl < length (arrays s)" and lc: "sl_len sl \<le> cap s sl"
  shows "sl_len (fst (append_slice newcap sl x s)) = sl_len sl + 1"
    and "view (snd (append_slice newcap sl x s)) (fst (append_slice newcap sl x s)) = view s sl @ [x]"
    and "sl_base (fst (append_slice newcap sl x s)) < length (arrays (snd (append_slice newcap sl x s)))"
    and "sl_len (fst (append_slice newcap sl x s))
           \<le> cap (snd (append_slice newcap sl x s)) (fst (append_slice newcap sl x s))"
    and "objs (snd (append_slice newcap sl x s)) = objs s"
    and "length (arrays s) \<le> length (arrays (snd (append_slice newcap sl x s)))"
    and "\<forall>a < length (arrays s). a \<noteq> sl_base sl \<longrightarrow>
           arrays (snd (append_slice newcap sl x s)) ! a = arrays s ! a"
    and "sl_base (fst (append_slice newcap sl x s)) = sl_base sl \<or>
         length (arrays s) \<le> sl_base (fst (append_slice newcap sl x s))"
proof -
  show "sl_len (fst (append_slice newcap sl x s)) = sl_len sl + 1"
    by (simp add: append_slice_def Let_def)
  show "view (snd (append_slice newcap sl x s)) (fst (append_slice newcap sl x s)) = view s sl @ [x]"
  proof (cases "sl_len sl < cap s sl")
    case True
    then show ?thesis using b
      by (simp add: append_slice_def view_def cap_def take_Suc_conv_app_nth)
  next
    case False
    then have "length (view s sl) = sl_len sl" using lc by (simp add: view_def cap_def)
    then show ?thesis using False by (simp add: append_slice_def Let_def view_def[of "_\<lparr>arrays := _\<rparr>"])
  qed
  show "sl_base (fst (append_slice newcap sl x s)) < length (arrays (snd (append_slice newcap sl x s)))"
    using b by (simp add: append_slice_def Let_def)
  show "sl_len (fst (append_slice newcap sl x s))
           \<le> cap (snd (append_slice newcap sl x s)) (fst (append_slice newcap sl x s))"
  proof (cases "sl_len sl < cap s sl")
    case True
    then show ?thesis using b by (simp add: append_slice_def cap_def)
  next
    case False
    then have "length (view s sl) = sl_len sl" using lc by (simp add: view_def cap_def)
    then show ?thesis using False by (simp add: append_slice_def Let_def cap_def[of "_\<lparr>arrays := _\<rparr>"])
  qed
  show "objs (snd (append_slice newcap sl x s)) = objs s"
    by (simp add: append_slice_def Let_def)
  show "length (arrays s) \<le> length (arrays (snd (append_slice newcap sl x s)))"
    by (simp add: append_slice_def Let_def)
  show "\<forall>a < length (arrays s). a \<noteq> sl_base sl \<longrightarrow>
           arrays (snd (append_slice newcap sl x s)) ! a = arrays s ! a"
    by (simp add: append_slice_def Let_def nth_append)
  show "sl_base (fst (append_slice newcap sl x s)) = sl_base sl \<or>
         length (arrays s) \<le> sl_base (fst (append_slice newcap sl x s))"
    by (simp add: append_slice_def Let_def)
qed

lemma Insert_p_refines:
  assumes v: "valid_ptr s m"
  shows "\<exists>s'. Insert_p newcap m x s = Some s' \<and>
              Insert (heap_of s m) x = Some (heap_of s' m) \<and>
              valid_ptr s' m \<and>
              same_except s s' m (sl_base (h_elements (objs s ! m))) \<and>
              (sl_base (h_elements (objs s' ! m)) = sl_base (h_elements (objs s ! m)) \<or>
               length (arrays s) \<le> sl_base (h_elements (objs s' ! m)))"
proof -
  define h where "h = objs s ! m"
  define sl where "sl = h_elements h"
  have m: "m < length (objs s)" and b: "sl_base sl < length (arrays s)"
    and lc: "sl_len sl \<le> cap s sl"
    using v unfolding valid_ptr_def h_def sl_def by simp_all
  define sl1 where "sl1 = fst (append_slice newcap sl x s)"
  define s1 where "s1 = snd (append_slice newcap sl x s)"
  define s2 where "s2 = s1\<lparr>objs := (objs s1)[m := h\<lparr>h_elements := sl1\<rparr>]\<rparr>"
  note P = append_slice_props[OF b lc, of newcap x, folded sl1_def s1_def]
  have len_v: "length (view s sl) = sl_len sl" using lc by (simp add: view_def cap_def)
  have v2: "view s2 sl1 = view s sl @ [x]" using P(2) unfolding s2_def view_def by simp
  obtain es where es: "upHeap (h_compare h) (view s sl @ [x]) (sl_len sl) = Some es"
    "length es = sl_len sl + 1"
    using upHeap_Some[of "sl_len sl" "view s sl @ [x]" "h_compare h"] len_v by auto
  define s3 where "s3 = put s2 sl1 es"
  have I: "Insert_p newcap m x s = Some s3"
    using m es(1) v2 P(1)
    unfolding Insert_p_def s3_def s2_def h_def[symmetric] sl_def[symmetric] Let_def
    by (simp add: split_beta sl1_def[symmetric] s1_def[symmetric])
  have b2: "sl_base sl1 < length (arrays s2)" using P(3) unfolding s2_def by simp
  have cap2: "cap s2 sl1 = cap s1 sl1" unfolding s2_def cap_def by simp
  have o3: "objs s3 = (objs s)[m := h\<lparr>h_elements := sl1\<rparr>]"
    unfolding s3_def s2_def using P(5) by simp
  have v3: "view s3 sl1 = es"
    unfolding s3_def using view_put[OF b2, of sl1 es] es(2) P(1) by simp
  have cap3: "cap s3 sl1 = cap s1 sl1"
    unfolding s3_def using cap_put[OF b2, of es sl1] es(2) P(1,4) cap2 by simp
  have ho: "heap_of s3 m = \<lparr>elements = es, compare = h_compare h\<rparr>"
    unfolding heap_of_def using o3 m v3 by simp
  have Iv: "Insert (heap_of s m) x = Some \<lparr>elements = es, compare = h_compare h\<rparr>"
    using es(1) len_v
    by (simp add: Insert_def heap_of_def h_def[symmetric] sl_def[symmetric])
  have vp: "valid_ptr s3 m"
    unfolding valid_ptr_def using o3 m b2 cap3 P(4) by (simp add: s3_def)
  have la: "length (arrays s) \<le> length (arrays s3)"
    unfolding s3_def s2_def using P(6) by simp
  have ar: "arrays s3 ! a = arrays s ! a" if "a < length (arrays s)" "a \<noteq> sl_base sl" for a
  proof -
    have "a \<noteq> sl_base sl1" using that P(8) by auto
    then have "arrays s3 ! a = arrays s1 ! a" unfolding s3_def s2_def by simp
    then show ?thesis using P(7) that by simp
  qed
  have se: "same_except s s3 m (sl_base sl)"
    unfolding same_except_def using o3 la ar by simp
  show ?thesis
    using I Iv ho vp se o3 m P(8) by (simp add: h_def[symmetric] sl_def[symmetric])
qed


lemma range_Insert_p_refines:
  "valid_ptr s c \<Longrightarrow> n0 \<le> sl_base (h_elements (objs s ! c)) \<Longrightarrow> sl_base sl < n0 \<Longrightarrow>
   n0 \<le> length (arrays s) \<Longrightarrow> sl_len sl \<le> cap s sl \<Longrightarrow>
   \<exists>s'. range_Insert_p newcap c sl i s = Some s' \<and>
        insert_range (heap_of s c) (drop i (view s sl)) = Some (heap_of s' c) \<and>
        valid_ptr s' c \<and> n0 \<le> sl_base (h_elements (objs s' ! c)) \<and>
        length (objs s') = length (objs s) \<and>
        (\<forall>q < length (objs s). q \<noteq> c \<longrightarrow> objs s' ! q = objs s ! q) \<and>
        length (arrays s) \<le> length (arrays s') \<and>
        (\<forall>a < n0. arrays s' ! a = arrays s ! a)"
proof (induction newcap c sl i s rule: range_Insert_p.induct)
  case (1 newcap c sl i s)
  have len_v: "length (view s sl) = sl_len sl" using "1.prems"(5) by (simp add: view_def cap_def)
  show ?case
  proof (cases "i < sl_len sl")
    case False
    then show ?thesis using len_v "1.prems"(1,2) by (subst range_Insert_p.simps) simp
  next
    case True
    let ?x = "arrays s ! sl_base sl ! i"
    let ?b = "sl_base (h_elements (objs s ! c))"
    have x: "view s sl ! i = ?x" using True by (simp add: view_def)
    have d: "drop i (view s sl) = ?x # drop (i + 1) (view s sl)"
      using True len_v x by (metis Cons_nth_drop_Suc Suc_eq_plus1)
    obtain s1 where s1: "Insert_p newcap c ?x s = Some s1"
      "Insert (heap_of s c) ?x = Some (heap_of s1 c)" "valid_ptr s1 c"
      "same_except s s1 c ?b"
      "sl_base (h_elements (objs s1 ! c)) = ?b \<or> length (arrays s) \<le> sl_base (h_elements (objs s1 ! c))"
      using Insert_p_refines[OF "1.prems"(1), of newcap ?x] by blast
    have b1: "n0 \<le> sl_base (h_elements (objs s1 ! c))"
      using s1(5) "1.prems"(2,4) by auto
    have la: "length (arrays s) \<le> length (arrays s1)" and lo: "length (objs s1) = length (objs s)"
      and oo: "\<forall>q < length (objs s). q \<noteq> c \<longrightarrow> objs s1 ! q = objs s ! q"
      and aa: "\<forall>a < length (arrays s). a \<noteq> ?b \<longrightarrow> arrays s1 ! a = arrays s ! a"
      using s1(4) unfolding same_except_def by simp_all
    have below: "\<forall>a < n0. arrays s1 ! a = arrays s ! a"
      using aa "1.prems"(2,4) by auto
    have arr_sl: "arrays s1 ! sl_base sl = arrays s ! sl_base sl"
      using below "1.prems"(3) by simp
    have v1: "view s1 sl = view s sl" unfolding view_def using arr_sl by simp
    have c1: "sl_len sl \<le> cap s1 sl" using "1.prems"(5) arr_sl unfolding cap_def by simp
    have n1: "n0 \<le> length (arrays s1)" using la "1.prems"(4) by simp
    obtain s' where s': "range_Insert_p newcap c sl (i + 1) s1 = Some s'"
      "insert_range (heap_of s1 c) (drop (i + 1) (view s1 sl)) = Some (heap_of s' c)"
      "valid_ptr s' c" "n0 \<le> sl_base (h_elements (objs s' ! c))"
      "length (objs s') = length (objs s1)"
      "\<forall>q < length (objs s1). q \<noteq> c \<longrightarrow> objs s' ! q = objs s1 ! q"
      "length (arrays s1) \<le> length (arrays s')"
      "\<forall>a < n0. arrays s' ! a = arrays s1 ! a"
      using "1.IH"[OF True s1(1) s1(3) b1 "1.prems"(3) n1 c1] by blast
    have R: "range_Insert_p newcap c sl i s = Some s'"
      using True s1(1) s'(1) by (subst range_Insert_p.simps) simp
    have V: "insert_range (heap_of s c) (drop i (view s sl)) = Some (heap_of s' c)"
      using d s1(2) s'(2) v1 by simp
    show ?thesis
      using R V s'(3,4,5,6,7,8) lo oo la below by auto
  qed
qed

lemma new_heap_props:
  fixes s :: "'a::{linorder,default} store"
  shows "fst (NewMinHeap_p s) = length (objs s)"
    and "fst (NewMaxHeap_p s) = length (objs s)"
    and "heap_of (snd (NewMinHeap_p s)) (length (objs s)) = NewMinHeap"
    and "heap_of (snd (NewMaxHeap_p s)) (length (objs s)) = NewMaxHeap"
    and "arrays (snd (NewMinHeap_p s)) = arrays s @ [[]]"
    and "arrays (snd (NewMaxHeap_p s)) = arrays s @ [[]]"
    and "sl_base (h_elements (objs (snd (NewMinHeap_p s)) ! length (objs s))) = length (arrays s)"
    and "sl_base (h_elements (objs (snd (NewMaxHeap_p s)) ! length (objs s))) = length (arrays s)"
    and "butlast (objs (snd (NewMinHeap_p s))) = objs s \<and> length (objs (snd (NewMinHeap_p s))) = Suc (length (objs s))"
    and "butlast (objs (snd (NewMaxHeap_p s))) = objs s \<and> length (objs (snd (NewMaxHeap_p s))) = Suc (length (objs s))"
    and "valid_ptr (snd (NewMinHeap_p s)) (length (objs s))"
    and "valid_ptr (snd (NewMaxHeap_p s)) (length (objs s))"
  by (simp_all add: NewMinHeap_p_def NewMaxHeap_p_def make_slice_def new_obj_def heap_of_def
      view_def NewMinHeap_def NewMaxHeap_def valid_ptr_def cap_def)


lemma CombinarMonticulos_p_refines:
  fixes s :: "'a::{linorder,default} store"
  assumes v1: "valid_ptr s heap1" and v2: "valid_ptr s heap2"
  shows "\<exists>s'. CombinarMonticulos_p newcap heap1 heap2 s = Some (length (objs s), s') \<and>
              CombinarMonticulos (heap_of s heap1) (heap_of s heap2)
                = Some (heap_of s' (length (objs s))) \<and>
              valid_ptr s' (length (objs s)) \<and>
              length (arrays s) \<le> sl_base (h_elements (objs s' ! length (objs s))) \<and>
              preserved s s'"
proof -
  define c where "c = length (objs s)"
  define n0 where "n0 = length (arrays s)"
  define sl1 where "sl1 = h_elements (objs s ! heap1)"
  define sl2 where "sl2 = h_elements (objs s ! heap2)"
  define g where "g \<longleftrightarrow> sl_len sl1 > 1 \<and>
      h_compare (objs s ! heap1) (view s sl1 ! 0) (view s sl1 ! 1) > 0"
  define s1 where "s1 = snd (if g then NewMaxHeap_p s else NewMinHeap_p s)"
  define c0 :: "'a Heap" where "c0 = (if g then NewMaxHeap else NewMinHeap)"
  have m1: "heap1 < c" and m2: "heap2 < c" and b1: "sl_base sl1 < n0" and b2: "sl_base sl2 < n0"
    and lc1: "sl_len sl1 \<le> cap s sl1" and lc2: "sl_len sl2 \<le> cap s sl2"
    using v1 v2 unfolding valid_ptr_def c_def n0_def sl1_def sl2_def by simp_all
  have sz1: "Size (heap_of s heap1) = sl_len sl1"
    using lc1 unfolding Size_def heap_of_def view_def cap_def sl1_def by simp
  have gv: "g \<longleftrightarrow> Size (heap_of s heap1) > 1 \<and>
      compare (heap_of s heap1) (elements (heap_of s heap1) ! 0) (elements (heap_of s heap1) ! 1) > 0"
    unfolding g_def sz1 by (simp add: heap_of_def sl1_def)
  have fst1: "fst (if g then NewMaxHeap_p s else NewMinHeap_p s) = c"
    unfolding c_def using new_heap_props(1,2)[of s] by simp
  have h1: "heap_of s1 c = c0"
    unfolding s1_def c0_def c_def using new_heap_props(3,4)[of s] by simp
  have a1: "arrays s1 = arrays s @ [[]]"
    unfolding s1_def using new_heap_props(5,6)[of s] by simp
  have bc: "sl_base (h_elements (objs s1 ! c)) = n0"
    unfolding s1_def c_def n0_def using new_heap_props(7,8)[of s] by simp
  have o1: "butlast (objs s1) = objs s" "length (objs s1) = Suc c"
    unfolding s1_def c_def using new_heap_props(9,10)[of s] by simp_all
  have vc: "valid_ptr s1 c"
    unfolding s1_def c_def using new_heap_props(11,12)[of s] by simp
  have o1_nth: "objs s1 ! q = objs s ! q" if "q < c" for q
    using that o1 unfolding c_def by (metis nth_butlast)
  have n1: "n0 \<le> length (arrays s1)" using a1 unfolding n0_def by simp
  have arr1: "arrays s1 ! a = arrays s ! a" if "a < n0" for a
    using that a1 unfolding n0_def by (simp add: nth_append)
  have view1: "view s1 sl1 = view s sl1" unfolding view_def using arr1[OF b1] by simp
  have cap1: "sl_len sl1 \<le> cap s1 sl1" using lc1 arr1[OF b1] unfolding cap_def by simp
  obtain s2 where s2: "range_Insert_p newcap c sl1 0 s1 = Some s2"
    "insert_range (heap_of s1 c) (drop 0 (view s1 sl1)) = Some (heap_of s2 c)"
    "valid_ptr s2 c" "n0 \<le> sl_base (h_elements (objs s2 ! c))"
    "length (objs s2) = length (objs s1)"
    "\<forall>q < length (objs s1). q \<noteq> c \<longrightarrow> objs s2 ! q = objs s1 ! q"
    "length (arrays s1) \<le> length (arrays s2)"
    "\<forall>a < n0. arrays s2 ! a = arrays s1 ! a"
    using range_Insert_p_refines[OF vc _ b1 n1 cap1, of newcap 0] bc by auto
  have o2_nth: "objs s2 ! q = objs s ! q" if "q < c" for q
    using that s2(6) o1(2) o1_nth by simp
  have arr2: "arrays s2 ! a = arrays s ! a" if "a < n0" for a
    using that s2(8) arr1 by simp
  have view2: "view s2 sl2 = view s sl2" unfolding view_def using arr2[OF b2] by simp
  have cap2: "sl_len sl2 \<le> cap s2 sl2" using lc2 arr2[OF b2] unfolding cap_def by simp
  have n2: "n0 \<le> length (arrays s2)" using n1 s2(7) by simp
  obtain s3 where s3: "range_Insert_p newcap c sl2 0 s2 = Some s3"
    "insert_range (heap_of s2 c) (drop 0 (view s2 sl2)) = Some (heap_of s3 c)"
    "valid_ptr s3 c" "n0 \<le> sl_base (h_elements (objs s3 ! c))"
    "length (objs s3) = length (objs s2)"
    "\<forall>q < length (objs s2). q \<noteq> c \<longrightarrow> objs s3 ! q = objs s2 ! q"
    "length (arrays s2) \<le> length (arrays s3)"
    "\<forall>a < n0. arrays s3 ! a = arrays s2 ! a"
    using range_Insert_p_refines[OF s2(3,4) b2 n2 cap2, of newcap 0] by auto
  have o3_nth: "objs s3 ! q = objs s ! q" if "q < c" for q
    using that s3(6) s2(5) o1(2) o2_nth by simp
  have arr3: "arrays s3 ! a = arrays s ! a" if "a < n0" for a
    using that s3(8) arr2 by simp
  have P: "preserved s s3"
    unfolding preserved_def using o3_nth arr3 s3(5,7) s2(5) o1(2) n2
    by (simp add: c_def[symmetric] n0_def[symmetric])
  have C: "CombinarMonticulos_p newcap heap1 heap2 s = Some (c, s3)"
  proof -
    have "(if g then NewMaxHeap_p s else NewMinHeap_p s) = (c, s1)"
      using fst1 unfolding s1_def by (metis prod.collapse)
    then show ?thesis
      using m1 m2 s2(1) s3(1) o1_nth[OF m1] o2_nth[OF m2] s2(5) o1(2)
      unfolding CombinarMonticulos_p_def Let_def g_def[symmetric, unfolded sl1_def]
      by (simp add: c_def[symmetric] sl1_def sl2_def)
  qed
  have V: "CombinarMonticulos (heap_of s heap1) (heap_of s heap2) = Some (heap_of s3 c)"
  proof -
    have e1: "elements (heap_of s heap1) = view s sl1" and e2: "elements (heap_of s heap2) = view s sl2"
      by (simp_all add: heap_of_def sl1_def sl2_def)
    have "insert_range c0 (elements (heap_of s heap1)) = Some (heap_of s2 c)"
      using s2(2) h1 view1 e1 by simp
    moreover have "insert_range (heap_of s2 c) (elements (heap_of s heap2)) = Some (heap_of s3 c)"
      using s3(2) view2 e2 by simp
    ultimately show ?thesis
      unfolding CombinarMonticulos_def Let_def gv[symmetric] c0_def[symmetric] by simp
  qed
  show ?thesis
    using C V s3(3,4) P unfolding c_def n0_def by blast
qed

text \<open>
  With a function that is no order, here the constant 1, two insertions already break
  the heap order: \<open>upHeap\<close> stops at once, and the root compares \<open>> 0\<close> with its child.
\<close>

lemma comparator_must_be_an_order:
  "\<not> valid_comparator (\<lambda>a b :: int. 1) \<and>
   apply_calls (NewGenericHeap (\<lambda>a b :: int. 1)) [CallInsert 1, CallInsert 2]
     = Some \<lparr>elements = [1, 2], compare = (\<lambda>a b. 1)\<rparr> \<and>
   \<not> heap_ok \<lparr>elements = [1, 2 :: int], compare = (\<lambda>a b. 1)\<rparr>"
proof -
  have "\<not> valid_comparator (\<lambda>a b :: int. 1)"
    by (simp add: valid_comparator_def)
  moreover have "apply_calls (NewGenericHeap (\<lambda>a b :: int. 1)) [CallInsert 1, CallInsert 2]
     = Some \<lparr>elements = [1, 2], compare = (\<lambda>a b. 1)\<rparr>"
    by (simp add: NewGenericHeap_def Insert_def upHeap.simps)
  moreover have "\<not> heap_ok \<lparr>elements = [1, 2 :: int], compare = (\<lambda>a b. 1)\<rparr>"
    by (simp add: heap_ok_def heap_inv_def)
  ultimately show ?thesis by blast
qed

section \<open>The claims\<close>

text \<open>
  C1. A heap made by any of the three constructors keeps the heap order through every
  sequence of calls of \<open>Insert\<close> and \<open>Remove\<close> (a \<open>Remove\<close> on the empty heap leaves
  it as it is): no call panics, and afterwards every index with a child inside the
  sequence compares \<open>\<le> 0\<close> with that child under the heap's own comparator. For
  \<open>NewGenericHeap\<close> the comparator is one that compares any two elements and is
  transitive, which the spec (4.1) requires of a caller's comparator; the comparators
  of \<open>NewMinHeap\<close> and \<open>NewMaxHeap\<close> are such. (The code does not check the
  comparator it is given, and with one that is no order the heap order can fail:
  lemma \<open>comparator_must_be_an_order\<close>.)
\<close>

theorem heap_order_preserved:
  "(valid_comparator cmp \<longrightarrow>
      (\<exists>m. apply_calls (NewGenericHeap cmp) cs = Some m \<and> heap_ok m)) \<and>
   (\<exists>m. apply_calls (NewMinHeap :: 'b::{linorder,default} Heap) cs1 = Some m \<and> heap_ok m) \<and>
   (\<exists>m. apply_calls (NewMaxHeap :: 'b Heap) cs2 = Some m \<and> heap_ok m)"
proof (intro conjI impI)
  assume "valid_comparator cmp"
  then show "\<exists>m. apply_calls (NewGenericHeap cmp) cs = Some m \<and> heap_ok m"
    using apply_calls_heap_ok[of "NewGenericHeap cmp" cs]
    by (auto simp: NewGenericHeap_def heap_ok_def heap_inv_Nil)
next
  show "\<exists>m. apply_calls (NewMinHeap :: 'b Heap) cs1 = Some m \<and> heap_ok m"
    using apply_calls_heap_ok[of "NewMinHeap :: 'b Heap" cs1] valid_Compare
    by (auto simp: NewMinHeap_def heap_ok_def heap_inv_Nil)
next
  show "\<exists>m. apply_calls (NewMaxHeap :: 'b Heap) cs2 = Some m \<and> heap_ok m"
    using apply_calls_heap_ok[of "NewMaxHeap :: 'b Heap" cs2] valid_Compare_flip
    by (auto simp: NewMaxHeap_def heap_ok_def heap_inv_Nil)
qed

theorem heap_order_preserved_witness:
  "valid_comparator (\<lambda>a b :: int. a - b) \<and>
   (\<exists>m. apply_calls (NewGenericHeap (\<lambda>a b :: int. a - b))
          [CallInsert 5, CallInsert 3, CallInsert 8, CallInsert 1, CallRemove, CallInsert 2]
        = Some m \<and>
        elements m = [2, 3, 8, 5] \<and> heap_ok m \<and>
        compare m (elements m ! 0) (elements m ! 1) \<le> 0 \<and>
        compare m (elements m ! 0) (elements m ! 2) \<le> 0 \<and>
        compare m (elements m ! 1) (elements m ! 3) \<le> 0)"
proof -
  have v: "valid_comparator (\<lambda>a b :: int. a - b)"
    by (simp add: valid_comparator_def)
  have e: "map_option elements (apply_calls (NewGenericHeap (\<lambda>a b :: int. a - b))
          [CallInsert 5, CallInsert 3, CallInsert 8, CallInsert 1, CallRemove, CallInsert 2])
        = Some [2, 3, 8, 5]"
    by code_simp
  have c: "map_option (\<lambda>m. map (\<lambda>(i, j). compare m (elements m ! i) (elements m ! j) \<le> 0) [(0, 1), (0, 2), (1, 3)])
        (apply_calls (NewGenericHeap (\<lambda>a b :: int. a - b))
          [CallInsert 5, CallInsert 3, CallInsert 8, CallInsert 1, CallRemove, CallInsert 2])
        = Some [True, True, True]"
    by code_simp
  obtain m where m: "apply_calls (NewGenericHeap (\<lambda>a b :: int. a - b))
          [CallInsert 5, CallInsert 3, CallInsert 8, CallInsert 1, CallRemove, CallInsert 2]
        = Some m" "heap_ok m"
    using v heap_order_preserved [where 'b = int, of "\<lambda>a b :: int. a - b"
        "[CallInsert 5, CallInsert 3, CallInsert 8, CallInsert 1, CallRemove, CallInsert 2]"
        "[]" "[]"]
    by blast
  show ?thesis using v e c m by simp
qed

text \<open>
  C2. The test \<open>TestCombinarMonticulos_MaxHeapYMaxHeap\<close>: two heaps made by
  \<open>NewMaxHeap\<close>, the first filled with 7, 5, 3 and the second with 6, 4, 2. The merged
  heap is a min-heap: its comparator is \<open>utils.Compare\<close>, its element sequence is
  [2, 4, 3, 7, 6, 5] with the minimum at the root, and its own comparator gives
  \<open>compare(elements[0], elements[1]) = -1\<close>, where the test asserts \<open>\<ge> 0\<close>.
\<close>

theorem merge_of_max_heaps_is_min_heap:
  "insert_range NewMaxHeap [7, 5, 3 :: int]
     = Some \<lparr>elements = [7, 5, 3], compare = (\<lambda>a b. Compare b a)\<rparr> \<and>
   insert_range NewMaxHeap [6, 4, 2 :: int]
     = Some \<lparr>elements = [6, 4, 2], compare = (\<lambda>a b. Compare b a)\<rparr> \<and>
   CombinarMonticulos
       \<lparr>elements = [7, 5, 3 :: int], compare = (\<lambda>a b. Compare b a)\<rparr>
       \<lparr>elements = [6, 4, 2], compare = (\<lambda>a b. Compare b a)\<rparr>
     = Some \<lparr>elements = [2, 4, 3, 7, 6, 5], compare = Compare\<rparr> \<and>
   Compare (2 :: int) 4 = - 1"
proof -
  let ?h1 = "\<lparr>elements = [7, 5, 3 :: int], compare = (\<lambda>a b. Compare b a)\<rparr>"
  let ?h2 = "\<lparr>elements = [6, 4, 2 :: int], compare = (\<lambda>a b. Compare b a)\<rparr>"
  have a: "map_option elements (insert_range NewMaxHeap [7, 5, 3 :: int]) = Some [7, 5, 3]"
    by code_simp
  have b: "map_option elements (insert_range NewMaxHeap [6, 4, 2 :: int]) = Some [6, 4, 2]"
    by code_simp
  have e: "map_option elements (CombinarMonticulos ?h1 ?h2) = Some [2, 4, 3, 7, 6, 5]"
    by code_simp
  obtain c where c: "CombinarMonticulos ?h1 ?h2 = Some c"
    "compare c = (if Size ?h1 > 1 \<and> compare ?h1 (elements ?h1 ! 0) (elements ?h1 ! 1) > 0
                    then (\<lambda>a b. Compare b a) else Compare)"
    using CombinarMonticulos_total[of ?h1 ?h2] by blast
  have "compare c = Compare" using c(2) by (simp add: Size_def Compare_def)
  moreover have "elements c = [2, 4, 3, 7, 6, 5]" using e c(1) by simp
  ultimately have "c = \<lparr>elements = [2, 4, 3, 7, 6, 5], compare = Compare\<rparr>"
    by (cases c) simp
  then show ?thesis
    using insert_range_literal[OF a] insert_range_literal[OF b] c(1)
    by (simp add: NewMaxHeap_def Compare_def)
qed

text \<open>
  C3. When the element sequence of the first input heap is heap-ordered under that
  heap's own comparator, the guard
  \<open>heap1.Size() > 1 && heap1.compare(heap1.elements[0], heap1.elements[1]) > 0\<close> of
  \<open>CombinarMonticulos\<close> is false, and the merged heap is made by \<open>NewMinHeap\<close>: its
  comparator is \<open>utils.Compare\<close>, whatever the ordering of the two inputs. (Nothing is
  asked of the second heap.)
\<close>

theorem merge_guard_never_holds:
  assumes "heap_ok heap1"
  shows "\<not> (Size heap1 > 1 \<and> compare heap1 (elements heap1 ! 0) (elements heap1 ! 1) > 0) \<and>
         (\<exists>c. CombinarMonticulos heap1 heap2 = Some c \<and> compare c = Compare)"
proof -
  have g: "\<not> (Size heap1 > 1 \<and> compare heap1 (elements heap1 ! 0) (elements heap1 ! 1) > 0)"
    using heap_ok_guard[OF assms] .
  obtain c where "CombinarMonticulos heap1 heap2 = Some c"
    "compare c = (if Size heap1 > 1 \<and> compare heap1 (elements heap1 ! 0) (elements heap1 ! 1) > 0
                    then (\<lambda>a b. Compare b a) else Compare)"
    using CombinarMonticulos_total[of heap1 heap2] by blast
  then have "CombinarMonticulos heap1 heap2 = Some c \<and> compare c = Compare"
    using g by (simp only: if_not_P simp_thms)
  then show ?thesis using g by blast
qed

theorem merge_guard_never_holds_witness:
  "heap_ok \<lparr>elements = [7, 5, 3 :: int], compare = (\<lambda>a b. Compare b a)\<rparr> \<and>
   Size \<lparr>elements = [7, 5, 3 :: int], compare = (\<lambda>a b. Compare b a)\<rparr> > 1 \<and>
   (\<exists>c. CombinarMonticulos \<lparr>elements = [7, 5, 3 :: int], compare = (\<lambda>a b. Compare b a)\<rparr>
          \<lparr>elements = [6, 4, 2], compare = (\<lambda>a b. Compare b a)\<rparr> = Some c \<and>
        compare c = Compare \<and> elements c = [2, 4, 3, 7, 6, 5])"
proof -
  let ?h1 = "\<lparr>elements = [7, 5, 3 :: int], compare = (\<lambda>a b. Compare b a)\<rparr>"
  let ?h2 = "\<lparr>elements = [6, 4, 2 :: int], compare = (\<lambda>a b. Compare b a)\<rparr>"
  have ok: "heap_ok ?h1"
    by (simp add: heap_ok_def heap_inv_def Compare_def All_less_Suc)
  have sz: "Size ?h1 > 1" by (simp add: Size_def)
  have e: "map_option elements (CombinarMonticulos ?h1 ?h2) = Some [2, 4, 3, 7, 6, 5]"
    by code_simp
  obtain c where "CombinarMonticulos ?h1 ?h2 = Some c" "compare c = Compare"
    using merge_guard_never_holds [OF ok, of ?h2] by blast
  then show ?thesis using ok sz e by simp
qed

text \<open>
  C4. After the elements of any list \<open>xs\<close> have been inserted one at a time into an
  empty heap, calling \<open>Remove\<close> until the heap is empty returns them in sorted order:
  ascending (\<open>sort xs\<close>) for a heap from \<open>NewMinHeap\<close>, descending (\<open>rev (sort xs)\<close>)
  for a heap from \<open>NewMaxHeap\<close>.
\<close>

theorem sorted_extraction:
  fixes xs :: "'a::{linorder,default} list"
  shows "(\<exists>h. insert_range NewMinHeap xs = Some h \<and> drain h = sort xs) \<and>
         (\<exists>h. insert_range NewMaxHeap xs = Some h \<and> drain h = rev (sort xs))"
proof
  obtain h where h: "insert_range NewMinHeap xs = Some h" "compare h = Compare"
    "mset (elements h) = mset xs"
    using insert_range_total[of NewMinHeap xs] by (auto simp: NewMinHeap_def)
  have "heap_ok h"
    using insert_range_heap_ok[OF _ heap_ok_NewMinHeap h(1)] valid_Compare
    by (simp add: NewMinHeap_def)
  then have "drain h = sort (elements h)" using drain_min_heap h(2) by blast
  also have "\<dots> = sort xs" using h(3) by (metis properties_for_sort sorted_sort mset_sort)
  finally show "\<exists>h. insert_range NewMinHeap xs = Some h \<and> drain h = sort xs"
    using h(1) by blast
next
  obtain h where h: "insert_range NewMaxHeap xs = Some h" "compare h = (\<lambda>a b. Compare b a)"
    "mset (elements h) = mset xs"
    using insert_range_total[of NewMaxHeap xs] by (auto simp: NewMaxHeap_def)
  have "heap_ok h"
    using insert_range_heap_ok[OF _ heap_ok_NewMaxHeap h(1)] valid_Compare_flip
    by (simp add: NewMaxHeap_def)
  then have "drain h = rev (sort (elements h))" using drain_max_heap h(2) by blast
  also have "sort (elements h) = sort xs"
    using h(3) by (metis properties_for_sort sorted_sort mset_sort)
  finally show "\<exists>h. insert_range NewMaxHeap xs = Some h \<and> drain h = rev (sort xs)"
    using h(1) by blast
qed

theorem sorted_extraction_witness:
  "(\<exists>h. insert_range NewMinHeap [5, 3, 8, 3, 1 :: int] = Some h \<and> drain h = [1, 3, 3, 5, 8]) \<and>
   (\<exists>h. insert_range NewMaxHeap [5, 3, 8, 3, 1 :: int] = Some h \<and> drain h = [8, 5, 3, 3, 1])"
  using sorted_extraction [of "[5, 3, 8, 3, 1 :: int]"] by simp

text \<open>
  C5. Inserting 44, 29, 58, 2, 98, 11, 65, 3, 68, 99, in that order, into a heap
  created by \<open>NewMaxHeap\<close> leaves the element sequence
  [99, 98, 65, 58, 68, 11, 44, 2, 3, 29]; the ten calls of \<open>Remove\<close> that follow
  return 99, 98, 68, 65, 58, 44, 29, 11, 3, 2, each with a \<open>nil\<close> error, and leave
  the heap empty.
\<close>

theorem max_heap_round_trip:
  "map_option elements
     (insert_range NewMaxHeap [44, 29, 58, 2, 98, 11, 65, 3, 68, 99 :: int])
     = Some [99, 98, 65, 58, 68, 11, 44, 2, 3, 29]
   \<and> map_option (\<lambda>m. fst (remove_n 10 m))
       (insert_range NewMaxHeap [44, 29, 58, 2, 98, 11, 65, 3, 68, 99 :: int])
     = Some [(99, None), (98, None), (68, None), (65, None), (58, None),
             (44, None), (29, None), (11, None), (3, None), (2, None)]
   \<and> map_option (\<lambda>m. elements (snd (remove_n 10 m)))
       (insert_range NewMaxHeap [44, 29, 58, 2, 98, 11, 65, 3, 68, 99 :: int])
     = Some []"
  by code_simp

text \<open>
  C6. On a heap with \<open>Size() == 0\<close>, \<open>Remove\<close> returns the zero value of \<open>T\<close> and the
  error \<open>EmptyContainer\<close> and leaves the heap as it was, so its size stays 0; on a heap
  with \<open>Size() > 0\<close>, \<open>Remove\<close> returns a \<open>nil\<close> error. The same at the level of
  pointers: on an empty heap the call leaves the whole store as it was.
\<close>

theorem Remove_error_handling:
  "(Size m = 0 \<longrightarrow>
      Remove m = ((default, Some EmptyContainer), m) \<and> Size (snd (Remove m)) = 0) \<and>
   (0 < Size m \<longrightarrow> snd (fst (Remove m)) = None) \<and>
   (p < length (objs s) \<and> sl_len (h_elements (objs s ! p)) = 0 \<longrightarrow>
      Remove_p p s = Some ((default, Some EmptyContainer), s)) \<and>
   (p < length (objs s) \<and> 0 < sl_len (h_elements (objs s ! p)) \<longrightarrow>
      (\<exists>x s'. Remove_p p s = Some ((x, None), s')))"
  by (simp add: Remove_def Remove_p_def Let_def)

theorem Remove_error_handling_witness:
  "Size (NewMinHeap :: int Heap) = 0 \<and>
   fst (Remove (NewMinHeap :: int Heap)) = (0, Some EmptyContainer) \<and>
   elements (snd (Remove (NewMinHeap :: int Heap))) = [] \<and>
   0 < Size \<lparr>elements = [7 :: int], compare = Compare\<rparr> \<and>
   snd (fst (Remove \<lparr>elements = [7 :: int], compare = Compare\<rparr>)) = None \<and>
   Remove_p 0 \<lparr>arrays = [[7 :: int]],
               objs = [\<lparr>h_elements = \<lparr>sl_base = 0, sl_len = 0\<rparr>, h_compare = Compare\<rparr>]\<rparr>
     = Some ((0, Some EmptyContainer),
             \<lparr>arrays = [[7 :: int]],
               objs = [\<lparr>h_elements = \<lparr>sl_base = 0, sl_len = 0\<rparr>, h_compare = Compare\<rparr>]\<rparr>) \<and>
   (\<exists>x s'. Remove_p 0 \<lparr>arrays = [[7 :: int]],
               objs = [\<lparr>h_elements = \<lparr>sl_base = 0, sl_len = 1\<rparr>, h_compare = Compare\<rparr>]\<rparr>
     = Some ((x, None), s'))"
  using Remove_error_handling [of "NewMinHeap :: int Heap" 0
      "\<lparr>arrays = [[7 :: int]],
        objs = [\<lparr>h_elements = \<lparr>sl_base = 0, sl_len = 0\<rparr>, h_compare = Compare\<rparr>]\<rparr>"]
    Remove_error_handling [of "\<lparr>elements = [7 :: int], compare = Compare\<rparr>" 0
      "\<lparr>arrays = [[7 :: int]],
        objs = [\<lparr>h_elements = \<lparr>sl_base = 0, sl_len = 1\<rparr>, h_compare = Compare\<rparr>]\<rparr>"]
  by (simp add: Size_def NewMinHeap_def default_int_def)

text \<open>
  C7. A call of \<open>EnesimoMaximo\<close> on a valid heap pointer, for any integer \<open>n\<close>, returns
  (it does not panic) and leaves the caller's heap as it was, whether it fails or not:
  the heap object, with its length, and its whole backing array are the same in the
  store after the call, and so are the size and the element sequence. Every other
  heap object and array of the store is unchanged as well. The result is the one of
  the value-level function.
\<close>

theorem EnesimoMaximo_leaves_heap_unchanged:
  assumes "valid_ptr s heap"
  shows "\<exists>s'. EnesimoMaximo_p heap n s = Some (EnesimoMaximo (heap_of s heap) n, s') \<and>
              objs s' ! heap = objs s ! heap \<and>
              arrays s' ! sl_base (h_elements (objs s ! heap))
                = arrays s ! sl_base (h_elements (objs s ! heap)) \<and>
              Size (heap_of s' heap) = Size (heap_of s heap) \<and>
              elements (heap_of s' heap) = elements (heap_of s heap) \<and>
              preserved s s'"
proof -
  obtain s' where s': "EnesimoMaximo_p heap n s = Some (EnesimoMaximo (heap_of s heap) n, s')"
    "preserved s s'"
    using EnesimoMaximo_p_refines[OF assms] by blast
  have o: "objs s' ! heap = objs s ! heap"
    and a: "arrays s' ! sl_base (h_elements (objs s ! heap))
                = arrays s ! sl_base (h_elements (objs s ! heap))"
    using s'(2) assms unfolding preserved_def valid_ptr_def by simp_all
  then have "heap_of s' heap = heap_of s heap" unfolding heap_of_def view_def by simp
  then show ?thesis using s' o a by simp
qed

theorem EnesimoMaximo_leaves_heap_unchanged_witness:
  "valid_ptr \<lparr>arrays = [[6, 5, 4, 1, 2, 3, 0, 0 :: int]],
              objs = [\<lparr>h_elements = \<lparr>sl_base = 0, sl_len = 6\<rparr>,
                       h_compare = (\<lambda>a b. Compare b a)\<rparr>]\<rparr> 0 \<and>
   (\<exists>s'. EnesimoMaximo_p 0 3
            \<lparr>arrays = [[6, 5, 4, 1, 2, 3, 0, 0 :: int]],
              objs = [\<lparr>h_elements = \<lparr>sl_base = 0, sl_len = 6\<rparr>,
                       h_compare = (\<lambda>a b. Compare b a)\<rparr>]\<rparr>
          = Some ((4, None), s') \<and>
        arrays s' = [[6, 5, 4, 1, 2, 3, 0, 0], [3, 1, 2, 1, 2, 3]] \<and>
        map h_elements (objs s')
          = [\<lparr>sl_base = 0, sl_len = 6\<rparr>, \<lparr>sl_base = 1, sl_len = 3\<rparr>] \<and>
        elements (heap_of s' 0) = [6, 5, 4, 1, 2, 3])"
proof -
  let ?s = "\<lparr>arrays = [[6, 5, 4, 1, 2, 3, 0, 0 :: int]],
              objs = [\<lparr>h_elements = \<lparr>sl_base = 0, sl_len = 6\<rparr>,
                       h_compare = (\<lambda>a b. Compare b a)\<rparr>]\<rparr>"
  have v: "valid_ptr ?s 0" by (simp add: valid_ptr_def cap_def)
  have r: "map_option fst (EnesimoMaximo_p 0 3 ?s) = Some (4, None)" by code_simp
  have a: "map_option (\<lambda>r. arrays (snd r)) (EnesimoMaximo_p 0 3 ?s)
             = Some [[6, 5, 4, 1, 2, 3, 0, 0], [3, 1, 2, 1, 2, 3]]" by code_simp
  have b: "map_option (\<lambda>r. map h_elements (objs (snd r))) (EnesimoMaximo_p 0 3 ?s)
             = Some [\<lparr>sl_base = 0, sl_len = 6\<rparr>, \<lparr>sl_base = 1, sl_len = 3\<rparr>]" by code_simp
  have e: "elements (heap_of ?s 0) = [6, 5, 4, 1, 2, 3]" by (simp add: heap_of_def view_def)
  obtain s' where "EnesimoMaximo_p 0 3 ?s = Some (EnesimoMaximo (heap_of ?s 0) 3, s')"
    "elements (heap_of s' 0) = elements (heap_of ?s 0)"
    using EnesimoMaximo_leaves_heap_unchanged [OF v, of 3] by blast
  then show ?thesis using v r a b e by auto
qed

text \<open>
  C8. \<open>EnesimoMaximo\<close> returns the zero value and the error \<open>InvalidRank\<close> exactly when
  \<open>n < 1\<close> or \<open>n > heap.Size()\<close>, so on an empty heap for every \<open>n\<close>; for
  \<open>1 \<le> n \<le> heap.Size()\<close> it returns, with a \<open>nil\<close> error, the \<open>n\<close>-th element that
  successive calls of \<open>Remove\<close> return, which on a heap-ordered max-heap is the \<open>n\<close>-th
  largest element. On the max-heap filled with 3, 1, 6, 5, 2, 4 it returns 4 for
  \<open>n = 3\<close> and fails with \<open>InvalidRank\<close> for \<open>n = 7\<close>.
\<close>

theorem EnesimoMaximo_rank:
  fixes heap :: "'a::{linorder,default} Heap"
  shows "(snd (EnesimoMaximo heap n) = Some InvalidRank \<longleftrightarrow> n < 1 \<or> n > int (Size heap)) \<and>
         (n < 1 \<or> n > int (Size heap) \<longrightarrow> EnesimoMaximo heap n = (default, Some InvalidRank)) \<and>
         (1 \<le> n \<and> n \<le> int (Size heap) \<longrightarrow>
            EnesimoMaximo heap n = (drain heap ! (nat n - 1), None)) \<and>
         (1 \<le> n \<and> n \<le> int (Size heap) \<and> heap_ok heap \<and>
          compare heap = (\<lambda>a b. Compare b a) \<longrightarrow>
            EnesimoMaximo heap n = (rev (sort (elements heap)) ! (nat n - 1), None)) \<and>
         (\<exists>h. insert_range NewMaxHeap [3, 1, 6, 5, 2, 4 :: int] = Some h \<and>
              EnesimoMaximo h 3 = (4, None) \<and>
              EnesimoMaximo h 7 = (0, Some InvalidRank))"
proof (intro conjI impI)
  show "snd (EnesimoMaximo heap n) = Some InvalidRank \<longleftrightarrow> n < 1 \<or> n > int (Size heap)"
  proof (cases "n < 1 \<or> n > int (Size heap)")
    case True
    then show ?thesis by (auto simp: EnesimoMaximo_def)
  next
    case False
    then show ?thesis using EnesimoMaximo_in_range[of n heap] by simp
  qed
next
  assume "n < 1 \<or> n > int (Size heap)"
  then show "EnesimoMaximo heap n = (default, Some InvalidRank)"
    by (auto simp: EnesimoMaximo_def)
next
  assume "1 \<le> n \<and> n \<le> int (Size heap)"
  then show "EnesimoMaximo heap n = (drain heap ! (nat n - 1), None)"
    using EnesimoMaximo_in_range[of n heap] by simp
next
  assume a: "1 \<le> n \<and> n \<le> int (Size heap) \<and> heap_ok heap \<and>
          compare heap = (\<lambda>a b. Compare b a)"
  then have "drain heap = rev (sort (elements heap))" using drain_max_heap by blast
  then show "EnesimoMaximo heap n = (rev (sort (elements heap)) ! (nat n - 1), None)"
    using EnesimoMaximo_in_range[of n heap] a by simp
next
  have a: "map_option elements (insert_range NewMaxHeap [3, 1, 6, 5, 2, 4 :: int])
             = Some [6, 5, 4, 1, 2, 3]"
    by code_simp
  have b: "EnesimoMaximo \<lparr>elements = [6, 5, 4, 1, 2, 3 :: int], compare = (\<lambda>a b. Compare b a)\<rparr> 3
             = (4, None)"
    by code_simp
  have c: "EnesimoMaximo \<lparr>elements = [6, 5, 4, 1, 2, 3 :: int], compare = (\<lambda>a b. Compare b a)\<rparr> 7
             = (0, Some InvalidRank)"
    by code_simp
  show "\<exists>h. insert_range NewMaxHeap [3, 1, 6, 5, 2, 4 :: int] = Some h \<and>
              EnesimoMaximo h 3 = (4, None) \<and>
              EnesimoMaximo h 7 = (0, Some InvalidRank)"
    using insert_range_literal[OF a] b c by (simp add: NewMaxHeap_def)
qed

theorem EnesimoMaximo_rank_witness:
  "heap_ok \<lparr>elements = [6, 5, 4, 1, 2, 3 :: int], compare = (\<lambda>a b. Compare b a)\<rparr> \<and>
   EnesimoMaximo \<lparr>elements = [6, 5, 4, 1, 2, 3 :: int], compare = (\<lambda>a b. Compare b a)\<rparr> 0
     = (0, Some InvalidRank) \<and>
   EnesimoMaximo \<lparr>elements = [6, 5, 4, 1, 2, 3 :: int], compare = (\<lambda>a b. Compare b a)\<rparr> 7
     = (0, Some InvalidRank) \<and>
   EnesimoMaximo (NewMaxHeap :: int Heap) 1 = (0, Some InvalidRank) \<and>
   EnesimoMaximo \<lparr>elements = [6, 5, 4, 1, 2, 3 :: int], compare = (\<lambda>a b. Compare b a)\<rparr> 3
     = (rev (sort [6, 5, 4, 1, 2, 3]) ! 2, None) \<and>
   rev (sort [6, 5, 4, 1, 2, 3 :: int]) ! 2 = 4 \<and>
   drain \<lparr>elements = [6, 5, 4, 1, 2, 3 :: int], compare = (\<lambda>a b. Compare b a)\<rparr> ! 2 = 4"
proof -
  let ?h = "\<lparr>elements = [6, 5, 4, 1, 2, 3 :: int], compare = (\<lambda>a b. Compare b a)\<rparr>"
  have ok: "heap_ok ?h"
    by (simp add: heap_ok_def heap_inv_def Compare_def All_less_Suc)
  have s: "rev (sort [6, 5, 4, 1, 2, 3 :: int]) ! 2 = 4" by simp
  have r: "EnesimoMaximo ?h 3 = (drain ?h ! 2, None)"
    using EnesimoMaximo_rank [of ?h 3, THEN conjunct2, THEN conjunct2, THEN conjunct1]
    by (simp add: Size_def)
  have r2: "EnesimoMaximo ?h 3 = (rev (sort [6, 5, 4, 1, 2, 3]) ! 2, None)"
    using EnesimoMaximo_rank [of ?h 3, THEN conjunct2, THEN conjunct2, THEN conjunct2,
        THEN conjunct1] ok
    by (simp add: Size_def)
  have d: "drain ?h ! 2 = 4" using r r2 s by simp
  have z: "EnesimoMaximo ?h 0 = (0, Some InvalidRank)"
    using EnesimoMaximo_rank [of ?h 0, THEN conjunct2, THEN conjunct1]
    by (simp add: default_int_def)
  have t: "EnesimoMaximo ?h 7 = (0, Some InvalidRank)"
    using EnesimoMaximo_rank [of ?h 7, THEN conjunct2, THEN conjunct1]
    by (simp add: Size_def default_int_def)
  have e: "EnesimoMaximo (NewMaxHeap :: int Heap) 1 = (0, Some InvalidRank)"
    using EnesimoMaximo_rank [of "NewMaxHeap :: int Heap" 1, THEN conjunct2, THEN conjunct1]
    by (simp add: Size_def NewMaxHeap_def default_int_def)
  show ?thesis using ok z t e r2 s d by blast
qed

text \<open>
  C9. On two valid heap pointers \<open>CombinarMonticulos\<close> returns (it does not panic) a
  pointer to a new heap object, over an array that was not in the store before. The
  elements of the new heap are, as a multiset, those of the first heap together with
  those of the second, duplicates kept, and its size is the sum of the two sizes. The
  two input heaps have the element sequences they had, and every heap object and
  array that was in the store before the call is unchanged. The new heap is the one
  of the value-level function.
\<close>

theorem CombinarMonticulos_union:
  fixes s :: "'a::{linorder,default} store"
  assumes "valid_ptr s heap1" and "valid_ptr s heap2"
  shows "\<exists>c s'. CombinarMonticulos_p newcap heap1 heap2 s = Some (c, s') \<and>
           c = length (objs s) \<and> valid_ptr s' c \<and>
           length (arrays s) \<le> sl_base (h_elements (objs s' ! c)) \<and>
           CombinarMonticulos (heap_of s heap1) (heap_of s heap2) = Some (heap_of s' c) \<and>
           mset (elements (heap_of s' c))
             = mset (elements (heap_of s heap1)) + mset (elements (heap_of s heap2)) \<and>
           Size (heap_of s' c) = Size (heap_of s heap1) + Size (heap_of s heap2) \<and>
           elements (heap_of s' heap1) = elements (heap_of s heap1) \<and>
           elements (heap_of s' heap2) = elements (heap_of s heap2) \<and>
           preserved s s'"
proof -
  obtain s' where s': "CombinarMonticulos_p newcap heap1 heap2 s = Some (length (objs s), s')"
    "CombinarMonticulos (heap_of s heap1) (heap_of s heap2) = Some (heap_of s' (length (objs s)))"
    "valid_ptr s' (length (objs s))"
    "length (arrays s) \<le> sl_base (h_elements (objs s' ! length (objs s)))"
    "preserved s s'"
    using CombinarMonticulos_p_refines[OF assms, of newcap] by blast
  obtain c where c: "CombinarMonticulos (heap_of s heap1) (heap_of s heap2) = Some c"
    "Size c = Size (heap_of s heap1) + Size (heap_of s heap2)"
    "mset (elements c) = mset (elements (heap_of s heap1)) + mset (elements (heap_of s heap2))"
    using CombinarMonticulos_total[of "heap_of s heap1" "heap_of s heap2"] by blast
  have ce: "c = heap_of s' (length (objs s))" using c(1) s'(2) by simp
  have same: "heap_of s' q = heap_of s q" if "valid_ptr s q" for q
  proof -
    have "objs s' ! q = objs s ! q"
      and "arrays s' ! sl_base (h_elements (objs s ! q)) = arrays s ! sl_base (h_elements (objs s ! q))"
      using s'(5) that unfolding preserved_def valid_ptr_def by simp_all
    then show ?thesis unfolding heap_of_def view_def by simp
  qed
  show ?thesis
    using s' c(2,3) same[OF assms(1)] same[OF assms(2)] unfolding ce by simp
qed

theorem CombinarMonticulos_union_witness:
  "valid_ptr \<lparr>arrays = [[3, 5, 7, 0 :: int], [2, 4, 6]],
              objs = [\<lparr>h_elements = \<lparr>sl_base = 0, sl_len = 3\<rparr>, h_compare = Compare\<rparr>,
                      \<lparr>h_elements = \<lparr>sl_base = 1, sl_len = 3\<rparr>, h_compare = Compare\<rparr>]\<rparr> 0 \<and>
   valid_ptr \<lparr>arrays = [[3, 5, 7, 0 :: int], [2, 4, 6]],
              objs = [\<lparr>h_elements = \<lparr>sl_base = 0, sl_len = 3\<rparr>, h_compare = Compare\<rparr>,
                      \<lparr>h_elements = \<lparr>sl_base = 1, sl_len = 3\<rparr>, h_compare = Compare\<rparr>]\<rparr> 1 \<and>
   (\<exists>s'. CombinarMonticulos_p (\<lambda>c. 2 * c) 0 1
           \<lparr>arrays = [[3, 5, 7, 0 :: int], [2, 4, 6]],
              objs = [\<lparr>h_elements = \<lparr>sl_base = 0, sl_len = 3\<rparr>, h_compare = Compare\<rparr>,
                      \<lparr>h_elements = \<lparr>sl_base = 1, sl_len = 3\<rparr>, h_compare = Compare\<rparr>]\<rparr>
          = Some (2, s') \<and>
        elements (heap_of s' 2) = [2, 3, 6, 5, 4, 7] \<and>
        elements (heap_of s' 0) = [3, 5, 7] \<and>
        elements (heap_of s' 1) = [2, 4, 6] \<and>
        take 2 (arrays s') = [[3, 5, 7, 0], [2, 4, 6]])"
proof -
  let ?s = "\<lparr>arrays = [[3, 5, 7, 0 :: int], [2, 4, 6]],
              objs = [\<lparr>h_elements = \<lparr>sl_base = 0, sl_len = 3\<rparr>, h_compare = Compare\<rparr>,
                      \<lparr>h_elements = \<lparr>sl_base = 1, sl_len = 3\<rparr>, h_compare = Compare\<rparr>]\<rparr>"
  have v0: "valid_ptr ?s 0" and v1: "valid_ptr ?s 1" by (simp_all add: valid_ptr_def cap_def)
  have r: "map_option (\<lambda>r. (fst r, elements (heap_of (snd r) 2), elements (heap_of (snd r) 0),
                elements (heap_of (snd r) 1), take 2 (arrays (snd r))))
             (CombinarMonticulos_p (\<lambda>c. 2 * c) 0 1 ?s)
           = Some (2, [2, 3, 6, 5, 4, 7], [3, 5, 7], [2, 4, 6], [[3, 5, 7, 0], [2, 4, 6]])"
    by code_simp
  obtain c s' where "CombinarMonticulos_p (\<lambda>c. 2 * c) 0 1 ?s = Some (c, s')"
    using CombinarMonticulos_union [OF v0 v1, of "\<lambda>c. 2 * c"] by blast
  then show ?thesis using v0 v1 r by auto
qed

text \<open>
  C10. \<open>NuevoMonticuloMaxDesdeArreglo\<close> on [3, 1, 6, 5, 2, 4] gives a heap of size 6
  whose elements are, as a multiset, 1 to 6, and whose sequence [6, 5, 4, 1, 2, 3] is
  heap-ordered under the comparator of \<open>NewMaxHeap\<close>; on the empty slice it gives a
  heap of size 0.
\<close>

theorem bulk_build_example:
  "(\<exists>h. NuevoMonticuloMaxDesdeArreglo [3, 1, 6, 5, 2, 4 :: int] = Some h \<and>
        Size h = 6 \<and> mset (elements h) = mset [1, 2, 3, 4, 5, 6] \<and>
        compare h = (\<lambda>a b. Compare b a) \<and> heap_ok h) \<and>
   (\<exists>h. NuevoMonticuloMaxDesdeArreglo ([] :: int list) = Some h \<and> Size h = 0)"
proof -
  have a: "map_option elements (insert_range NewMaxHeap [3, 1, 6, 5, 2, 4 :: int])
             = Some [6, 5, 4, 1, 2, 3]"
    by code_simp
  have ok: "heap_ok \<lparr>elements = [6, 5, 4, 1, 2, 3 :: int], compare = (\<lambda>a b. Compare b a)\<rparr>"
    by (simp add: heap_ok_def heap_inv_def Compare_def All_less_Suc)
  show ?thesis
    using insert_range_literal[OF a] ok
    by (simp add: NuevoMonticuloMaxDesdeArreglo_def Size_def NewMaxHeap_def)
qed

theorem bulk_build_example_witness:
  "\<exists>h. NuevoMonticuloMaxDesdeArreglo [3, 1, 6, 5, 2, 4 :: int] = Some h \<and>
       elements h = [6, 5, 4, 1, 2, 3] \<and> heap_ok h \<and>
       compare h (elements h ! 0) (elements h ! 1) = - 1 \<and>
       compare h (elements h ! 0) (elements h ! 2) = - 1 \<and>
       compare h (elements h ! 1) (elements h ! 3) = - 1 \<and>
       compare h (elements h ! 1) (elements h ! 4) = - 1 \<and>
       compare h (elements h ! 2) (elements h ! 5) = - 1"
proof -
  have a: "map_option elements (NuevoMonticuloMaxDesdeArreglo [3, 1, 6, 5, 2, 4 :: int])
             = Some [6, 5, 4, 1, 2, 3]"
    by code_simp
  obtain h where "NuevoMonticuloMaxDesdeArreglo [3, 1, 6, 5, 2, 4 :: int] = Some h"
    "compare h = (\<lambda>a b. Compare b a)" "heap_ok h"
    using bulk_build_example by blast
  then show ?thesis using a by (simp add: Compare_def)
qed

end
